theory Spec2Isabelle
  imports Complex_Main "HOL-Library.AList"
begin

section \<open>Movie recommendation: the data model\<close>

text \<open>
  The program \<^verbatim>\<open>Movie_Recommendation_Algorithm.py\<close> consists of four functions:
  \<^verbatim>\<open>build_graph\<close>, \<^verbatim>\<open>dfs\<close>, \<^verbatim>\<open>calculate_score\<close> and \<^verbatim>\<open>recommend_movie\<close>.

  A movie is a Python string. The graph is a \<^verbatim>\<open>defaultdict(set)\<close>: a dictionary from
  movies to sets of movies in which reading a missing key inserts that key with an
  empty set. A Python dictionary keeps its keys in insertion order, so the graph is an
  association list; each adjacency set is the list of its elements, since the
  traversal iterates over it. The sets that are never iterated over (\<^verbatim>\<open>visited\<close>, the
  result of \<^verbatim>\<open>dfs\<close>) are HOL sets.

  A Python float is an IEEE 754 double. A finite double is the rational number it
  denotes, so the floats of the program are values of type \<open>rat\<close>, and every
  operation that produces a float rounds its exact result to the nearest double, ties
  to even (\<open>round_double\<close>). The exponent range of a double is not modelled: a list
  or a set has fewer than \<open>2\<^sup>6\<^sup>3\<close> elements, so the counts of this program are below
  \<open>2\<^sup>1\<^sup>2\<^sup>6\<close> and no quotient it computes leaves the range of the normal doubles.
  The interpreter's recursion limit is outside the model.
\<close>

type_synonym movie = string

type_synonym graph = "(movie \<times> movie list) list"

datatype error = KeyError | ZeroDivisionError | ValueError

subsection \<open>Operations of \<^verbatim>\<open>defaultdict(set)\<close>\<close>

text \<open>\<^verbatim>\<open>k in graph\<close>: membership among the keys; it never inserts.\<close>

definition contains :: "graph \<Rightarrow> movie \<Rightarrow> bool" where
  "contains graph k = (map_of graph k \<noteq> None)"

text \<open>
  \<^verbatim>\<open>graph[k]\<close>: the set stored under \<open>k\<close>; a missing key is inserted with the empty set
  (the default factory) and that empty set is returned. The dictionary after the read
  is the second component.
\<close>

definition getitem :: "graph \<Rightarrow> movie \<Rightarrow> movie list \<times> graph" where
  "getitem graph k =
     (case map_of graph k of
        Some s \<Rightarrow> (s, graph)
      | None \<Rightarrow> ([], graph @ [(k, [])]))"

text \<open>\<^verbatim>\<open>s.add(x)\<close> on a set.\<close>

definition set_add :: "movie list \<Rightarrow> movie \<Rightarrow> movie list" where
  "set_add s x = (if x \<in> set s then s else s @ [x])"

text \<open>\<^verbatim>\<open>graph[k].add(x)\<close>.\<close>

definition graph_add :: "graph \<Rightarrow> movie \<Rightarrow> movie \<Rightarrow> graph" where
  "graph_add graph k x =
     (case getitem graph k of (s, graph') \<Rightarrow> AList.update k (set_add s x) graph')"

text \<open>\<^verbatim>\<open>s.remove(x)\<close> on a set raises \<^verbatim>\<open>KeyError\<close> when \<open>x\<close> is absent.\<close>

definition set_remove :: "movie set \<Rightarrow> movie \<Rightarrow> error + movie set" where
  "set_remove s x = (if x \<in> s then Inr (s - {x}) else Inl KeyError)"

subsection \<open>Floats\<close>

text \<open>
  For \<open>x > 0\<close>, \<open>ilog2 x\<close> is the exponent of the leading binary digit of \<open>x\<close>:
  \<open>2 powi ilog2 x \<le> x < 2 powi (ilog2 x + 1)\<close>.
\<close>

function ilog2 :: "rat \<Rightarrow> int" where
  "ilog2 x =
     (if x \<le> 0 then 0
      else if 2 \<le> x then ilog2 (x / 2) + 1
      else if x < 1 then ilog2 (2 * x) - 1
      else 0)"
  by pat_completeness auto

lemma floor_half_less: "2 \<le> (x::rat) \<Longrightarrow> \<lfloor>x / 2\<rfloor> < \<lfloor>x\<rfloor>"
proof -
  assume x: "2 \<le> x"
  have "of_int \<lfloor>x / 2\<rfloor> \<le> x / 2" by (rule of_int_floor_le)
  also have "\<dots> \<le> x - 1" using x by simp
  also have "\<dots> < of_int \<lfloor>x\<rfloor>" by linarith
  finally show ?thesis by simp
qed

termination ilog2
proof (relation "measure (\<lambda>x. if 1 \<le> x then nat \<lfloor>x\<rfloor> - 1 else if 0 < x then nat \<lfloor>1 / x\<rfloor> else 0)",
    goal_cases)
  case 1
  show ?case by simp
next
  case (2 x)
  then have x: "2 \<le> x" by simp
  from floor_half_less[OF x] have "\<lfloor>x / 2\<rfloor> < \<lfloor>x\<rfloor>" .
  moreover from x have "1 \<le> \<lfloor>x / 2\<rfloor>" by simp
  ultimately have "nat \<lfloor>x / 2\<rfloor> - 1 < nat \<lfloor>x\<rfloor> - 1" by linarith
  moreover from x have "1 \<le> x / 2" "1 \<le> x" by simp_all
  ultimately show ?case by simp
next
  case (3 x)
  then have x: "0 < x" "x < 1" by simp_all
  then have y: "1 < 1 / x" by simp
  then have f: "1 \<le> \<lfloor>1 / x\<rfloor>" by simp
  show ?case
  proof (cases "1 \<le> 2 * x")
    case True
    with x have "\<lfloor>2 * x\<rfloor> = 1" by (simp add: floor_eq_iff)
    with True x f show ?thesis by simp
  next
    case False
    with x have "2 \<le> 1 / x" by (simp add: le_divide_eq)
    from floor_half_less[OF this] have "\<lfloor>1 / (2 * x)\<rfloor> < \<lfloor>1 / x\<rfloor>"
      by (simp add: mult.commute)
    with False x f show ?thesis by simp
  qed
qed

declare ilog2.simps [simp del]

text \<open>The nearest integer, the even one of the two when \<open>x\<close> is halfway between them.\<close>

definition round_even :: "rat \<Rightarrow> int" where
  "round_even x =
     (let n = \<lfloor>x\<rfloor>; r = x - of_int n
      in if r < 1 / 2 then n
         else if 1 / 2 < r then n + 1
         else if even n then n else n + 1)"

text \<open>
  The nearest double: the significand of a double has 53 binary digits, so \<open>\<bar>x\<bar>\<close> is
  scaled into the interval from \<open>2\<^sup>5\<^sup>2\<close> to \<open>2\<^sup>5\<^sup>3\<close>, rounded to an integer there, and
  scaled back.
\<close>

definition round_double :: "rat \<Rightarrow> rat" where
  "round_double x =
     (if x = 0 then 0
      else let e = ilog2 \<bar>x\<bar> - 52;
               m = round_even (\<bar>x\<bar> / 2 powi e)
           in sgn x * of_int m * 2 powi e)"

text \<open>
  The conversion of an \<^verbatim>\<open>int\<close> to a float, which Python applies to the \<^verbatim>\<open>int\<close> operand
  of a division by a float: it rounds to the nearest double.
\<close>

definition int_to_float :: "int \<Rightarrow> rat" where
  "int_to_float n = round_double (of_int n)"

text \<open>
  \<^verbatim>\<open>a / b\<close> on two \<^verbatim>\<open>int\<close>s: the exact quotient, rounded once. It raises
  \<^verbatim>\<open>ZeroDivisionError\<close> on a zero divisor.
\<close>

definition int_truediv :: "int \<Rightarrow> int \<Rightarrow> error + rat" where
  "int_truediv a b =
     (if b = 0 then Inl ZeroDivisionError else Inr (round_double (of_int a / of_int b)))"

text \<open>\<^verbatim>\<open>a / b\<close> on two floats.\<close>

definition float_truediv :: "rat \<Rightarrow> rat \<Rightarrow> error + rat" where
  "float_truediv a b = (if b = 0 then Inl ZeroDivisionError else Inr (round_double (a / b)))"

subsection \<open>\<^verbatim>\<open>build_graph\<close>\<close>

text \<open>The body of the loop over the similarity pairs.\<close>

definition add_similarity :: "movie \<times> movie \<Rightarrow> graph \<Rightarrow> graph" where
  "add_similarity p graph =
     (case p of (a, b) \<Rightarrow>
        graph_add (graph_add (graph_add (graph_add graph a b) b a) a a) b b)"

text \<open>The body of the loop over the movies.\<close>

definition add_movie :: "movie \<Rightarrow> graph \<Rightarrow> graph" where
  "add_movie movie graph =
     (if \<not> contains graph movie then graph_add graph movie movie else graph)"

definition build_graph :: "movie list \<Rightarrow> (movie \<times> movie) list \<Rightarrow> graph" where
  "build_graph movies similarities =
     fold add_movie movies (fold add_similarity similarities [])"

subsection \<open>\<^verbatim>\<open>dfs\<close>\<close>

text \<open>
  \<^verbatim>\<open>dfs(node, graph, visited)\<close> mutates \<^verbatim>\<open>visited\<close>, and reading \<^verbatim>\<open>graph[node]\<close> may insert
  a key, so the model returns the result set together with the visited set and the
  graph as the call leaves them. \<open>dfs_loop\<close> is the \<^verbatim>\<open>for neighbor in graph[node]\<close> loop
  with the rest of the neighbours still to visit and \<^verbatim>\<open>result\<close> so far.
\<close>

function (domintros) dfs :: "movie \<Rightarrow> graph \<Rightarrow> movie set \<Rightarrow> movie set \<times> movie set \<times> graph"
  and dfs_loop ::
    "movie list \<Rightarrow> graph \<Rightarrow> movie set \<Rightarrow> movie set \<Rightarrow> movie set \<times> movie set \<times> graph"
where
  "dfs node graph visited =
     (if node \<in> visited then ({}, visited, graph)
      else case getitem graph node of
             (neighbors, graph') \<Rightarrow> dfs_loop neighbors graph' (insert node visited) {node})"
| "dfs_loop [] graph visited result = (result, visited, graph)"
| "dfs_loop (neighbor # rest) graph visited result =
     (case dfs neighbor graph visited of
        (r, visited', graph') \<Rightarrow> dfs_loop rest graph' visited' (result \<union> r))"
  by pat_completeness auto

text \<open>
  Termination. Every recursive call is on a neighbour, that is on a member of some
  adjacency set; \<open>nbrs_of\<close> collects them. Reading a missing key adds an empty
  adjacency set, so \<open>nbrs_of\<close> stays the same during a traversal, while the visited
  set only grows; the number of neighbours not yet visited bounds the recursion.
\<close>

definition nbrs_of :: "graph \<Rightarrow> movie set" where
  "nbrs_of graph = (\<Union>(k, s) \<in> set graph. set s)"

lemma nbrs_of_getitem: "getitem graph k = (s, graph') \<Longrightarrow> nbrs_of graph' = nbrs_of graph"
  by (fastforce simp: getitem_def nbrs_of_def split: option.splits)

lemma getitem_nbrs: "getitem graph k = (s, graph') \<Longrightarrow> set s \<subseteq> nbrs_of graph"
  by (auto simp: getitem_def nbrs_of_def split: option.splits dest!: map_of_SomeD)

lemma finite_nbrs_of: "finite (nbrs_of graph)"
  by (auto simp: nbrs_of_def)

lemma dfs_dfs_loop_grow:
  "dfs_dfs_loop_dom (Inl (node, graph, visited)) \<Longrightarrow>
     visited \<subseteq> fst (snd (dfs node graph visited)) \<and>
     nbrs_of (snd (snd (dfs node graph visited))) = nbrs_of graph"
  "dfs_dfs_loop_dom (Inr (ns, graph, visited, result)) \<Longrightarrow>
     visited \<subseteq> fst (snd (dfs_loop ns graph visited result)) \<and>
     nbrs_of (snd (snd (dfs_loop ns graph visited result))) = nbrs_of graph"
proof (induction node graph visited and ns graph visited result rule: dfs_dfs_loop.pinduct)
  case (1 node graph visited)
  show ?case
  proof (cases "node \<in> visited")
    case True
    with 1(1) show ?thesis by (simp add: dfs.psimps)
  next
    case False
    obtain s g' where gi: "getitem graph node = (s, g')" by (cases "getitem graph node")
    from 1(2)[OF False gi[symmetric]] 1(1) False gi show ?thesis
      by (auto simp: dfs.psimps nbrs_of_getitem)
  qed
next
  case (2 graph visited result)
  then show ?case by (simp add: dfs_loop.psimps)
next
  case (3 neighbor rest graph visited result)
  obtain r v' g' where d: "dfs neighbor graph visited = (r, v', g')"
    by (cases "dfs neighbor graph visited")
  from 3(3)[of r "(v', g')" v' g'] d have
    "v' \<subseteq> fst (snd (dfs_loop rest g' v' (result \<union> r)))"
    "nbrs_of (snd (snd (dfs_loop rest g' v' (result \<union> r)))) = nbrs_of g'" by auto
  moreover from 3(2) d have "visited \<subseteq> v'" "nbrs_of g' = nbrs_of graph" by auto
  ultimately show ?case using 3(1) d by (auto simp: dfs_loop.psimps)
qed

termination dfs
proof (relation "inv_image (less_than <*lex*> less_than)
    (\<lambda>x. case x of
        Inl (node, graph, visited) \<Rightarrow> (card ((nbrs_of graph \<union> {node}) - visited), 0::nat)
      | Inr (ns, graph, visited, result) \<Rightarrow>
          (card ((nbrs_of graph \<union> set ns) - visited), Suc (length ns)))",
    goal_cases)
  case 1
  show ?case by (intro wf_inv_image wf_lex_prod wf_less_than)
next
  case (2 node graph visited s g')
  then have gi: "getitem graph node = (s, g')" by simp
  have "(nbrs_of g' \<union> set s) - insert node visited \<subset> (nbrs_of graph \<union> {node}) - visited"
    using 2(1) nbrs_of_getitem[OF gi] getitem_nbrs[OF gi] by auto
  then have "card ((nbrs_of g' \<union> set s) - insert node visited)
      < card ((nbrs_of graph \<union> {node}) - visited)"
    by (intro psubset_card_mono) (auto simp: finite_nbrs_of)
  then show ?case by simp
next
  case (3 neighbor rest graph visited result)
  have "card ((nbrs_of graph \<union> {neighbor}) - visited)
      \<le> card ((nbrs_of graph \<union> set (neighbor # rest)) - visited)"
    by (intro card_mono) (auto simp: finite_nbrs_of)
  then show ?case by auto
next
  case (4 neighbor rest graph visited result r y v' g')
  from dfs_dfs_loop_grow(1)[OF 4(3)] 4(1,2)[symmetric]
  have "visited \<subseteq> v'" "nbrs_of g' = nbrs_of graph" by auto
  then have "card ((nbrs_of g' \<union> set rest) - v')
      \<le> card ((nbrs_of graph \<union> set (neighbor # rest)) - visited)"
    by (intro card_mono) (auto simp: finite_nbrs_of)
  then show ?case by auto
qed

subsection \<open>\<^verbatim>\<open>calculate_score\<close>\<close>

text \<open>
  The loop over the friends: \<^verbatim>\<open>total_similar_seen\<close> and \<^verbatim>\<open>friends_counted\<close> are the
  accumulators.
\<close>

fun count_similar :: "movie list list \<Rightarrow> movie set \<Rightarrow> int \<times> int \<Rightarrow> int \<times> int" where
  "count_similar [] similar_movies (total_similar_seen, friends_counted) =
     (total_similar_seen, friends_counted)"
| "count_similar (friend # rest) similar_movies (total_similar_seen, friends_counted) =
     (let similar_seen = int (card (set friend \<inter> similar_movies))
      in if similar_seen > 0
         then count_similar rest similar_movies
                (total_similar_seen + similar_seen, friends_counted + 1)
         else count_similar rest similar_movies (total_similar_seen, friends_counted))"

text \<open>
  The result is the pair (score, uniqueness) together with the graph as the call
  leaves it, or the exception raised.
\<close>

definition calculate_score ::
    "movie \<Rightarrow> movie list list \<Rightarrow> graph \<Rightarrow> error + ((int \<times> rat) \<times> graph)" where
  "calculate_score movie friends graph =
     (let seen_friends = sum_list (map (\<lambda>friend. 1) (filter (\<lambda>friend. movie \<in> set friend) friends))
      in if seen_friends = 0 then Inr ((0, 0), graph)
         else case dfs movie graph {} of
           (similar_movies, visited, graph') \<Rightarrow>
             (case set_remove similar_movies movie of
                Inl e \<Rightarrow> Inl e
              | Inr similar_movies' \<Rightarrow>
                 (case count_similar friends similar_movies' (0, 0) of
                    (total_similar_seen, friends_counted) \<Rightarrow>
                      if friends_counted = 0 then Inr ((0, 0), graph')
                      else case int_truediv total_similar_seen friends_counted of
                             Inl e \<Rightarrow> Inl e
                           | Inr mean_similar_seen \<Rightarrow>
                              (case float_truediv (int_to_float 1) mean_similar_seen of
                                 Inl e \<Rightarrow> Inl e
                               | Inr uniqueness \<Rightarrow> Inr ((seen_friends, uniqueness), graph')))))"

subsection \<open>\<^verbatim>\<open>recommend_movie\<close>\<close>

text \<open>
  The loop over the movies, with \<^verbatim>\<open>recommendations\<close> as accumulator; the graph is
  threaded through the calls of \<open>calculate_score\<close>.
\<close>

fun score_all ::
    "movie list \<Rightarrow> movie list list \<Rightarrow> graph \<Rightarrow> (movie \<times> rat) list
      \<Rightarrow> error + ((movie \<times> rat) list \<times> graph)" where
  "score_all [] friends graph recommendations = Inr (recommendations, graph)"
| "score_all (movie # rest) friends graph recommendations =
     (case calculate_score movie friends graph of
        Inl e \<Rightarrow> Inl e
      | Inr ((score, uniqueness), graph') \<Rightarrow>
          if uniqueness \<noteq> 0
          then (case float_truediv (int_to_float score) uniqueness of
                  Inl e \<Rightarrow> Inl e
                | Inr ratio \<Rightarrow>
                    score_all rest friends graph' (recommendations @ [(movie, ratio)]))
          else score_all rest friends graph' recommendations)"

text \<open>
  \<^verbatim>\<open>max(xs, key=f)\<close>: the running maximum is replaced only by a strictly greater
  element; on the empty list it raises \<^verbatim>\<open>ValueError\<close>.
\<close>

fun max_from :: "('a \<Rightarrow> rat) \<Rightarrow> 'a \<Rightarrow> 'a list \<Rightarrow> 'a" where
  "max_from key best [] = best"
| "max_from key best (x # xs) =
     (if key x > key best then max_from key x xs else max_from key best xs)"

definition max_by :: "('a \<Rightarrow> rat) \<Rightarrow> 'a list \<Rightarrow> error + 'a" where
  "max_by key xs = (case xs of [] \<Rightarrow> Inl ValueError | x # rest \<Rightarrow> Inr (max_from key x rest))"

definition recommend_movie ::
    "movie list \<Rightarrow> (movie \<times> movie) list \<Rightarrow> movie list list \<Rightarrow> error + movie" where
  "recommend_movie movies similarities friends =
     (let graph = build_graph movies similarities
      in case score_all movies friends graph [] of
           Inl e \<Rightarrow> Inl e
         | Inr (recommendations, graph') \<Rightarrow>
             if recommendations = [] then Inr ''No movie to recommend''
             else (case max_by snd recommendations of
                     Inl e \<Rightarrow> Inl e
                   | Inr best_recommendation \<Rightarrow> Inr (fst best_recommendation)))"

subsection \<open>The example of the \<^verbatim>\<open>__main__\<close> block\<close>

definition example_movies :: "movie list" where
  "example_movies =
     [''Snatch'', ''Lock, Stock and Two Smoking Barrels'', ''The Hateful Eight'',
      ''Pain & Gain'', ''Reservoir Dogs'']"

definition example_similarities :: "(movie \<times> movie) list" where
  "example_similarities =
     [(''Snatch'', ''Lock, Stock and Two Smoking Barrels''),
      (''Snatch'', ''Pain & Gain''),
      (''Reservoir Dogs'', ''The Hateful Eight'')]"

definition example_friends :: "movie list list" where
  "example_friends =
     [[''Reservoir Dogs''],
      [''Reservoir Dogs'', ''Lock, Stock and Two Smoking Barrels''],
      [''Reservoir Dogs''],
      [''Snatch''],
      [''Lock, Stock and Two Smoking Barrels''],
      [''Pain & Gain'', ''Reservoir Dogs'']]"

subsection \<open>An example where rounding decides\<close>

text \<open>
  Two movies are scored. Three friends have seen \<^verbatim>\<open>A\<close>, and the one friend who has seen
  movies similar to it has seen three: the ratio is 3 / (1 / 3). Seven friends have
  seen \<^verbatim>\<open>B\<close>, and they have seen nine movies similar to it between them: the ratio is
  7 / (1 / (9 / 7)). Computed exactly both ratios are 9; in doubles the first is 9
  and the second is the next double above 9.
\<close>

definition rounding_movies :: "movie list" where
  "rounding_movies = [''A'', ''B'']"

definition rounding_similarities :: "(movie \<times> movie) list" where
  "rounding_similarities =
     [(''A'', ''a1''), (''A'', ''a2''), (''A'', ''a3''), (''B'', ''b1''), (''B'', ''b2'')]"

definition rounding_friends :: "movie list list" where
  "rounding_friends =
     [[''A'', ''a1'', ''a2'', ''a3''], [''A''], [''A''],
      [''B'', ''b1'', ''b2''], [''B'', ''b1'', ''b2''],
      [''B'', ''b1''], [''B'', ''b1''], [''B'', ''b1''], [''B'', ''b1''], [''B'', ''b1'']]"

section \<open>Notions used in the statements\<close>

subsection \<open>Reading the graph\<close>

text \<open>
  \<open>adj graph k\<close> is the value of \<^verbatim>\<open>graph[k]\<close> as a set (empty for a missing key);
  \<open>edges\<close> is the similarity relation the dictionary stores. A graph is \<open>closed\<close> when
  every neighbour is itself a key, so that no read can insert one.
\<close>

definition adj :: "graph \<Rightarrow> movie \<Rightarrow> movie set" where
  "adj graph k = set (fst (getitem graph k))"

definition edges :: "graph \<Rightarrow> (movie \<times> movie) set" where
  "edges graph = {(a, b). b \<in> adj graph a}"

definition closed :: "graph \<Rightarrow> bool" where
  "closed graph = (\<forall>a b. b \<in> adj graph a \<longrightarrow> contains graph b)"

definition graph_inv :: "graph \<Rightarrow> bool" where
  "graph_inv graph =
     ((\<forall>k. contains graph k \<longrightarrow> k \<in> adj graph k) \<and>
      (\<forall>a b. b \<in> adj graph a \<longrightarrow> a \<in> adj graph b) \<and>
      closed graph)"

subsection \<open>The quantities of the scorer\<close>

text \<open>
  The popularity of a movie is the number of friends who have seen it. Its similarity
  cluster is what the traversal returns from it, minus the movie itself. The overlap
  of a friend is the number of movies of the cluster the friend has seen; the mean
  overlap is taken over the friends whose overlap is positive, and is the exact
  quotient, before any rounding.
\<close>

definition seen_friends_of :: "movie \<Rightarrow> movie list list \<Rightarrow> int" where
  "seen_friends_of movie friends = int (length (filter (\<lambda>friend. movie \<in> set friend) friends))"

definition cluster :: "movie \<Rightarrow> graph \<Rightarrow> movie set" where
  "cluster movie graph = fst (dfs movie graph {}) - {movie}"

definition overlap :: "movie list \<Rightarrow> movie set \<Rightarrow> int" where
  "overlap friend c = int (card (set friend \<inter> c))"

definition total_overlap :: "movie list list \<Rightarrow> movie set \<Rightarrow> int" where
  "total_overlap friends c = sum_list (map (\<lambda>friend. overlap friend c) friends)"

definition overlapping :: "movie list list \<Rightarrow> movie set \<Rightarrow> int" where
  "overlapping friends c = int (length (filter (\<lambda>friend. overlap friend c > 0) friends))"

definition mean_overlap :: "movie list list \<Rightarrow> movie set \<Rightarrow> rat" where
  "mean_overlap friends c = of_int (total_overlap friends c) / of_int (overlapping friends c)"

text \<open>
  The score, the uniqueness and their quotient as \<open>recommend_movie\<close> computes them for
  one movie: the quotient is the float that \<^verbatim>\<open>score / uniqueness\<close> evaluates to.
\<close>

definition score_of :: "movie \<Rightarrow> movie list list \<Rightarrow> graph \<Rightarrow> int" where
  "score_of movie friends graph =
     (case calculate_score movie friends graph of
        Inl e \<Rightarrow> 0 | Inr ((score, uniqueness), graph') \<Rightarrow> score)"

definition novelty_of :: "movie \<Rightarrow> movie list list \<Rightarrow> graph \<Rightarrow> rat" where
  "novelty_of movie friends graph =
     (case calculate_score movie friends graph of
        Inl e \<Rightarrow> 0 | Inr ((score, uniqueness), graph') \<Rightarrow> uniqueness)"

definition ratio_of :: "movie \<Rightarrow> movie list list \<Rightarrow> graph \<Rightarrow> rat" where
  "ratio_of movie friends graph =
     round_double (int_to_float (score_of movie friends graph) / novelty_of movie friends graph)"

subsection \<open>Conditions on the inputs\<close>

text \<open>
  \<open>seen\<close>: some friend has seen the movie. \<open>pairwise_similar\<close>: a similarity pair
  joins every two distinct movies of the catalog. \<open>peer_overlap\<close>: some friend has seen
  a movie of the similarity cluster of some movie of the catalog. \<open>covers\<close>: every movie
  of the catalog has been seen by some friend.
\<close>

definition seen :: "movie \<Rightarrow> movie list list \<Rightarrow> bool" where
  "seen movie friends = (\<exists>friend \<in> set friends. movie \<in> set friend)"

definition pairwise_similar :: "movie list \<Rightarrow> (movie \<times> movie) list \<Rightarrow> bool" where
  "pairwise_similar movies similarities =
     (\<forall>a \<in> set movies. \<forall>b \<in> set movies.
        a \<noteq> b \<longrightarrow> (a, b) \<in> set similarities \<or> (b, a) \<in> set similarities)"

definition peer_overlap :: "movie list \<Rightarrow> movie list list \<Rightarrow> graph \<Rightarrow> bool" where
  "peer_overlap movies friends graph =
     (\<exists>m \<in> set movies. \<exists>friend \<in> set friends. set friend \<inter> cluster m graph \<noteq> {})"

definition covers :: "movie list list \<Rightarrow> movie list \<Rightarrow> bool" where
  "covers friends movies = (\<forall>m \<in> set movies. seen m friends)"

section \<open>Rounding\<close>

text \<open>
  The leading digit is where \<open>ilog2\<close> says, rounding to an integer stays between
  integer bounds, and so the nearest double of a positive \<open>x\<close> lies between the two
  powers of 2 that enclose \<open>x\<close>. In particular rounding keeps a number positive,
  at least 1, or at most 1.
\<close>

lemma ilog2_bounds:
  "0 < x \<Longrightarrow> 2 powi ilog2 x \<le> x \<and> x < 2 powi (ilog2 x + 1)"
proof (induction x rule: ilog2.induct)
  case (1 x)
  show ?case
  proof (cases "2 \<le> x")
    case True
    with 1 have ih: "2 powi ilog2 (x / 2) \<le> x / 2" "x / 2 < 2 powi (ilog2 (x / 2) + 1)"
      by simp_all
    from True 1(3) have e: "ilog2 x = ilog2 (x / 2) + 1" by (subst ilog2.simps) simp
    have "(2::rat) powi (ilog2 (x / 2) + 1) = 2 powi ilog2 (x / 2) * 2"
      by (simp add: power_int_add)
    moreover have "(2::rat) powi (ilog2 (x / 2) + 1 + 1) = 2 powi (ilog2 (x / 2) + 1) * 2"
      by (simp add: power_int_add)
    ultimately show ?thesis unfolding e using ih by linarith
  next
    case False
    show ?thesis
    proof (cases "x < 1")
      case True
      with 1 False have ih: "2 powi ilog2 (2 * x) \<le> 2 * x" "2 * x < 2 powi (ilog2 (2 * x) + 1)"
        by simp_all
      from True False 1(3) have e: "ilog2 x = ilog2 (2 * x) - 1" by (subst ilog2.simps) simp
      have "(2::rat) powi ilog2 (2 * x) = 2 powi (ilog2 (2 * x) - 1) * 2"
        using power_int_add[of "2::rat" "ilog2 (2 * x) - 1" 1] by simp
      moreover have "(2::rat) powi (ilog2 (2 * x) + 1) = 2 powi (ilog2 (2 * x) - 1 + 1) * 2"
        by (simp add: power_int_add)
      ultimately show ?thesis unfolding e using ih by linarith
    next
      case ge: False
      with False 1(3) have e: "ilog2 x = 0" by (subst ilog2.simps) simp
      from ge False show ?thesis unfolding e by simp
    qed
  qed
qed

lemma ilog2_nonneg: "1 \<le> x \<Longrightarrow> 0 \<le> ilog2 x"
proof (rule ccontr)
  assume x: "1 \<le> x" and "\<not> 0 \<le> ilog2 x"
  then have "ilog2 x + 1 \<le> 0" by simp
  then have "(2::rat) powi (ilog2 x + 1) \<le> 2 powi 0" by (intro power_int_increasing) simp_all
  with ilog2_bounds[of x] x show False by simp
qed

lemma ilog2_neg: "0 < x \<Longrightarrow> x < 1 \<Longrightarrow> ilog2 x < 0"
proof (rule ccontr)
  assume x: "0 < x" "x < 1" and "\<not> ilog2 x < 0"
  then have "(2::rat) powi 0 \<le> 2 powi ilog2 x" by (intro power_int_increasing) simp_all
  with ilog2_bounds[of x] x show False by simp
qed

lemma round_even_ge: "of_int a \<le> x \<Longrightarrow> a \<le> round_even x"
proof -
  assume "of_int a \<le> x"
  then have "a \<le> \<lfloor>x\<rfloor>" by (simp add: le_floor_iff)
  then show ?thesis by (auto simp: round_even_def Let_def)
qed

lemma round_even_le: "x \<le> of_int b \<Longrightarrow> round_even x \<le> b"
proof (cases "x = of_int b")
  case True
  then show ?thesis by (simp add: round_even_def)
next
  case False
  assume "x \<le> of_int b"
  with False have "x < of_int b" by simp
  then have "\<lfloor>x\<rfloor> < b" by (simp add: floor_less_iff)
  then show ?thesis by (auto simp: round_even_def Let_def)
qed

lemma round_double_bounds:
  assumes "0 < x"
  shows "2 powi ilog2 x \<le> round_double x" and "round_double x \<le> 2 powi (ilog2 x + 1)"
proof -
  let ?e = "ilog2 x - 52"
  let ?m = "round_even (x / 2 powi ?e)"
  have p: "(0::rat) < 2 powi ?e" by (simp add: zero_less_power_int)
  have s1: "(2::rat) powi ilog2 x = 2 ^ 52 * 2 powi ?e"
    using power_int_add[of "2::rat" 52 ?e] by simp
  have s2: "(2::rat) powi (ilog2 x + 1) = 2 ^ 53 * 2 powi ?e"
    using power_int_add[of "2::rat" 53 ?e] by (simp add: add.commute)
  from ilog2_bounds[OF assms] have "2 ^ 52 * 2 powi ?e \<le> x" "x < 2 ^ 53 * 2 powi ?e"
    unfolding s1 s2 by simp_all
  with p have b: "of_int (2 ^ 52) \<le> x / 2 powi ?e" "x / 2 powi ?e \<le> of_int (2 ^ 53)"
    by (simp_all add: le_divide_eq divide_le_eq)
  have m: "2 ^ 52 \<le> ?m" "?m \<le> 2 ^ 53"
    using round_even_ge[OF b(1)] round_even_le[OF b(2)] by simp_all
  have "rat_of_int (2 ^ 52) \<le> rat_of_int ?m" "rat_of_int ?m \<le> rat_of_int (2 ^ 53)"
    using m by (simp_all only: of_int_le_iff)
  then have "(2::rat) ^ 52 \<le> rat_of_int ?m" "rat_of_int ?m \<le> (2::rat) ^ 53" by simp_all
  with p have "(2::rat) ^ 52 * 2 powi ?e \<le> rat_of_int ?m * 2 powi ?e"
    "rat_of_int ?m * 2 powi ?e \<le> (2::rat) ^ 53 * 2 powi ?e" by simp_all
  moreover from assms have "round_double x = of_int ?m * 2 powi ?e"
    by (simp add: round_double_def Let_def)
  ultimately show "2 powi ilog2 x \<le> round_double x"
    and "round_double x \<le> 2 powi (ilog2 x + 1)" unfolding s1 s2 by simp_all
qed

lemma round_double_pos: "0 < x \<Longrightarrow> 0 < round_double x"
proof -
  assume "0 < x"
  from round_double_bounds(1)[OF this] have le: "2 powi ilog2 x \<le> round_double x" .
  have "(0::rat) < 2 powi ilog2 x" by (simp add: zero_less_power_int)
  from this le show ?thesis by (rule less_le_trans)
qed

lemma round_double_ge_1: "1 \<le> x \<Longrightarrow> 1 \<le> round_double x"
proof -
  assume x: "1 \<le> x"
  from ilog2_nonneg[OF x] have "(1::rat) \<le> 2 powi ilog2 x" by (intro one_le_power_int) simp_all
  with round_double_bounds(1)[of x] x show ?thesis by simp
qed

lemma round_double_1: "round_double 1 = 1"
  by code_simp

lemma int_to_float_1: "int_to_float 1 = 1"
  by (simp add: int_to_float_def round_double_1)

lemma round_double_le_1: "0 < x \<Longrightarrow> x \<le> 1 \<Longrightarrow> round_double x \<le> 1"
proof (cases "x = 1")
  case True
  then show ?thesis by (simp add: round_double_1)
next
  case False
  assume x: "0 < x" "x \<le> 1"
  with False have "x < 1" by simp
  from ilog2_neg[OF x(1) this] have "ilog2 x + 1 \<le> 0" by simp
  then have "(2::rat) powi (ilog2 x + 1) \<le> 2 powi 0" by (intro power_int_increasing) simp_all
  with round_double_bounds(2)[OF x(1)] show ?thesis by simp
qed

text \<open>
  The rounding is to nearest: the integer chosen is within 1/2 of its argument and is
  even on a tie, so the double chosen for a positive \<open>x\<close> is within half a unit in the
  last place of \<open>x\<close>.
\<close>

lemma round_even_near: "\<bar>of_int (round_even x) - x\<bar> \<le> 1 / 2"
proof -
  have "of_int \<lfloor>x\<rfloor> \<le> x" "x < of_int \<lfloor>x\<rfloor> + 1" by linarith+
  then show ?thesis by (auto simp: round_even_def Let_def)
qed

lemma round_even_tie: "x - of_int \<lfloor>x\<rfloor> = 1 / 2 \<Longrightarrow> even (round_even x)"
  by (simp add: round_even_def Let_def)

lemma round_double_near:
  assumes "0 < x"
  shows "\<bar>round_double x - x\<bar> \<le> 2 powi (ilog2 x - 53)"
proof -
  let ?e = "ilog2 x - 52"
  let ?m = "round_even (x / 2 powi ?e)"
  have p: "(0::rat) < 2 powi ?e" by (simp add: zero_less_power_int)
  from assms have "round_double x = of_int ?m * 2 powi ?e"
    by (simp add: round_double_def Let_def)
  moreover from p have "x = x / 2 powi ?e * 2 powi ?e" by simp
  ultimately have "round_double x - x = (of_int ?m - x / 2 powi ?e) * 2 powi ?e"
    by (simp add: algebra_simps)
  then have "\<bar>round_double x - x\<bar> = \<bar>of_int ?m - x / 2 powi ?e\<bar> * 2 powi ?e"
    using p by (simp add: abs_mult)
  also have "\<dots> \<le> 1 / 2 * 2 powi ?e"
    using round_even_near[of "x / 2 powi ?e"] p by (intro mult_right_mono) simp_all
  also have "\<dots> = 2 powi (ilog2 x - 53)"
    using power_int_add[of "2::rat" "ilog2 x - 53" 1] by simp
  finally show ?thesis .
qed

text \<open>
  Some doubles: the nearest double of 1/3, and three quotients that are equal to 9
  or to 49 when computed exactly but not all so in doubles.
\<close>

lemma round_double_third: "round_double (1 / 3) = 6004799503160661 / 18014398509481984"
  by code_simp

lemma round_double_nine:
  "round_double (3 / round_double (1 / round_double 3)) = 9"
  "round_double (7 / round_double (1 / round_double (9 / 7)))
     = 5066549580791809 / 562949953421312"
  by code_simp+

lemma round_double_forty_nine:
  "round_double (1 / round_double (1 / 49)) = 6896136929411073 / 140737488355328"
  by code_simp

section \<open>The traversal\<close>

text \<open>The recursion of \<open>dfs\<close> is well-founded from every call.\<close>

lemma dfs_dfs_loop_dom_all:
  "dfs_dfs_loop_dom (Inl (node, graph, visited))"
  "dfs_dfs_loop_dom (Inr (ns, graph, visited, result))"
proof (induction node graph visited and ns graph visited result rule: dfs_dfs_loop.induct)
  case (1 node graph visited)
  show ?case
    by (rule dfs_dfs_loop.domintros(1)) (use 1 in auto)
next
  case (2 graph visited result)
  show ?case by (rule dfs_dfs_loop.domintros(2))
next
  case (3 neighbor rest graph visited result)
  show ?case
    by (rule dfs_dfs_loop.domintros(3)) (use 3 in auto)
qed

text \<open>
  What a call does to the visited set: \<open>dfs\<close> adds exactly its result to it, and the
  loop has visited every neighbour when it ends.
\<close>

lemma dfs_dfs_loop_visited:
  "(case dfs node graph visited of (r, visited', graph') \<Rightarrow>
      visited' = visited \<union> r \<and> node \<in> visited' \<and> (node \<notin> visited \<longrightarrow> node \<in> r))"
  "(case dfs_loop ns graph visited result of (r, visited', graph') \<Rightarrow>
      visited' \<union> result = visited \<union> r \<and> visited \<subseteq> visited' \<and> result \<subseteq> r \<and> set ns \<subseteq> visited')"
proof (induction node graph visited and ns graph visited result rule: dfs_dfs_loop.induct)
  case (1 node graph visited)
  show ?case
  proof (cases "node \<in> visited")
    case True
    then show ?thesis by simp
  next
    case False
    obtain s g' where gi: "getitem graph node = (s, g')" by (cases "getitem graph node")
    from 1[OF False gi[symmetric]] False gi show ?thesis
      by (auto split: prod.splits)
  qed
next
  case (2 graph visited result)
  show ?case by simp
next
  case (3 neighbor rest graph visited result)
  obtain r v' g' where d: "dfs neighbor graph visited = (r, v', g')"
    by (cases "dfs neighbor graph visited")
  from 3(2)[of r "(v', g')" v' g'] 3(1) d show ?case
    by (auto split: prod.splits)
qed

lemma dfs_self: "node \<in> fst (dfs node graph {})"
  using dfs_dfs_loop_visited(1)[where node=node and graph=graph and visited="{}"] by (auto split: prod.splits)

lemma dfs_neighbors:
  assumes "getitem graph node = (s, graph')"
  shows "set s \<subseteq> fst (dfs node graph {})"
  using dfs_dfs_loop_visited(2)[where ns=s and graph=graph' and visited="{node}" and result="{node}"] assms
  by (auto split: prod.splits)

lemma adj_subset_dfs: "adj graph node \<subseteq> fst (dfs node graph {})"
  using dfs_neighbors[of graph node "fst (getitem graph node)" "snd (getitem graph node)"]
  by (simp add: adj_def)

subsection \<open>The graph during a traversal\<close>

lemma getitem_contains: "contains graph k \<Longrightarrow> snd (getitem graph k) = graph"
  by (auto simp: getitem_def contains_def)

lemma adj_not_contains: "\<not> contains graph k \<Longrightarrow> adj graph k = {}"
  by (auto simp: adj_def getitem_def contains_def)

lemma adj_getitem: "adj (snd (getitem graph k)) k' = adj graph k'"
  by (auto simp: adj_def getitem_def split: option.splits if_splits)

lemma dfs_dfs_loop_adj:
  "adj (snd (snd (dfs node graph visited))) k = adj graph k"
  "adj (snd (snd (dfs_loop ns graph visited result))) k = adj graph k"
proof (induction node graph visited and ns graph visited result rule: dfs_dfs_loop.induct)
  case (1 node graph visited)
  show ?case
  proof (cases "node \<in> visited")
    case True
    then show ?thesis by simp
  next
    case False
    obtain s g' where gi: "getitem graph node = (s, g')" by (cases "getitem graph node")
    from adj_getitem[of graph node k] gi have "adj g' k = adj graph k" by simp
    with 1[OF False gi[symmetric]] False gi show ?thesis by simp
  qed
next
  case (2 graph visited result)
  show ?case by simp
next
  case (3 neighbor rest graph visited result)
  obtain r v' g' where d: "dfs neighbor graph visited = (r, v', g')"
    by (cases "dfs neighbor graph visited")
  from 3(2)[of r "(v', g')" v' g'] 3(1) d show ?case by simp
qed

lemma dfs_dfs_loop_frame:
  "closed graph \<Longrightarrow> contains graph node \<Longrightarrow> snd (snd (dfs node graph visited)) = graph"
  "closed graph \<Longrightarrow> \<forall>n \<in> set ns. contains graph n \<Longrightarrow>
     snd (snd (dfs_loop ns graph visited result)) = graph"
proof (induction node graph visited and ns graph visited result rule: dfs_dfs_loop.induct)
  case (1 node graph visited)
  show ?case
  proof (cases "node \<in> visited")
    case True
    then show ?thesis by simp
  next
    case False
    obtain s g' where gi: "getitem graph node = (s, g')" by (cases "getitem graph node")
    with getitem_contains[OF 1(3)] have g': "g' = graph" by simp
    from gi have "set s = adj graph node" by (simp add: adj_def)
    with 1(2) have "\<forall>n \<in> set s. contains graph n" by (auto simp: closed_def)
    with 1(1)[OF False gi[symmetric]] 1(2) g' have
      "snd (snd (dfs_loop s graph (insert node visited) {node})) = graph" by simp
    with False gi g' show ?thesis by simp
  qed
next
  case (2 graph visited result)
  show ?case by simp
next
  case (3 neighbor rest graph visited result)
  obtain r v' g' where d: "dfs neighbor graph visited = (r, v', g')"
    by (cases "dfs neighbor graph visited")
  from 3(1)[OF 3(3)] 3(4) d have g': "g' = graph" by simp
  from 3(2)[of r "(v', g')" v' g'] d g' 3(3,4) have
    "snd (snd (dfs_loop rest graph v' (result \<union> r))) = graph" by simp
  with d g' show ?case by simp
qed

subsection \<open>The traversal computes reachability\<close>

text \<open>
  Python does not fix the order in which a set is iterated, and the model iterates an
  adjacency set in insertion order. The result of a traversal started with nothing
  visited is the set of movies reachable along the edges, whatever the order: two
  graphs that store the same sets give the same result, and the same score.
\<close>

lemma dfs_dfs_loop_sound:
  "fst (dfs node graph visited) \<subseteq> (edges graph)\<^sup>* `` {node}"
  "fst (dfs_loop ns graph visited result) \<subseteq> result \<union> (edges graph)\<^sup>* `` set ns"
proof (induction node graph visited and ns graph visited result rule: dfs_dfs_loop.induct)
  case (1 node graph visited)
  show ?case
  proof (cases "node \<in> visited")
    case True
    then show ?thesis by simp
  next
    case False
    obtain s g' where gi: "getitem graph node = (s, g')" by (cases "getitem graph node")
    from adj_getitem[of graph node] gi have e: "edges g' = edges graph"
      by (simp add: edges_def)
    from gi have s: "set s = adj graph node" by (simp add: adj_def)
    have "(edges graph)\<^sup>* `` set s \<subseteq> (edges graph)\<^sup>* `` {node}"
      unfolding s by (auto simp: edges_def intro: converse_rtrancl_into_rtrancl)
    with 1[OF False gi[symmetric]] False gi e show ?thesis by auto
  qed
next
  case (2 graph visited result)
  show ?case by simp
next
  case (3 neighbor rest graph visited result)
  obtain r v' g' where d: "dfs neighbor graph visited = (r, v', g')"
    by (cases "dfs neighbor graph visited")
  from dfs_dfs_loop_adj(1)[of neighbor graph visited] d have e: "edges g' = edges graph"
    by (simp add: edges_def)
  from 3(2)[of r "(v', g')" v' g'] 3(1) d e show ?case by auto
qed

lemma dfs_dfs_loop_closed:
  "\<forall>x \<in> fst (snd (dfs node graph visited)) - visited.
      adj graph x \<subseteq> fst (snd (dfs node graph visited))"
  "\<forall>x \<in> fst (snd (dfs_loop ns graph visited result)) - visited.
      adj graph x \<subseteq> fst (snd (dfs_loop ns graph visited result))"
proof (induction node graph visited and ns graph visited result rule: dfs_dfs_loop.induct)
  case (1 node graph visited)
  show ?case
  proof (cases "node \<in> visited")
    case True
    then show ?thesis by simp
  next
    case False
    obtain s g' where gi: "getitem graph node = (s, g')" by (cases "getitem graph node")
    from adj_getitem[of graph node] gi have a: "\<And>k. adj g' k = adj graph k" by simp
    from gi have s: "set s = adj graph node" by (simp add: adj_def)
    let ?v = "fst (snd (dfs_loop s g' (insert node visited) {node}))"
    from dfs_dfs_loop_visited(2)[where ns=s and graph=g' and visited="insert node visited"
        and result="{node}"]
    have "set s \<subseteq> ?v" by (auto split: prod.splits)
    with s have "adj graph node \<subseteq> ?v" by simp
    moreover from 1[OF False gi[symmetric]] a
    have "\<forall>x \<in> ?v - insert node visited. adj graph x \<subseteq> ?v" by simp
    ultimately show ?thesis using False gi by auto
  qed
next
  case (2 graph visited result)
  show ?case by simp
next
  case (3 neighbor rest graph visited result)
  obtain r v' g' where d: "dfs neighbor graph visited = (r, v', g')"
    by (cases "dfs neighbor graph visited")
  from dfs_dfs_loop_adj(1)[of neighbor graph visited] d have a: "\<And>k. adj g' k = adj graph k"
    by simp
  let ?v = "fst (snd (dfs_loop rest g' v' (result \<union> r)))"
  from dfs_dfs_loop_visited(2)[where ns=rest and graph=g' and visited=v' and result="result \<union> r"]
  have sub: "v' \<subseteq> ?v" by (auto split: prod.splits)
  from 3(1) d have c1: "\<forall>x \<in> v' - visited. adj graph x \<subseteq> v'" by simp
  from 3(2)[of r "(v', g')" v' g'] d a have c2: "\<forall>x \<in> ?v - v'. adj graph x \<subseteq> ?v" by simp
  have "\<forall>x \<in> ?v - visited. adj graph x \<subseteq> ?v"
  proof
    fix x assume x: "x \<in> ?v - visited"
    show "adj graph x \<subseteq> ?v"
    proof (cases "x \<in> v'")
      case True
      with x c1 sub show ?thesis by blast
    next
      case False
      with x c2 show ?thesis by blast
    qed
  qed
  with d show ?case by simp
qed

lemma dfs_reachable: "fst (dfs node graph {}) = (edges graph)\<^sup>* `` {node}"
proof
  show "fst (dfs node graph {}) \<subseteq> (edges graph)\<^sup>* `` {node}"
    by (rule dfs_dfs_loop_sound(1))
next
  let ?r = "fst (dfs node graph {})"
  from dfs_dfs_loop_visited(1)[where node=node and graph=graph and visited="{}"]
  have v: "fst (snd (dfs node graph {})) = ?r" and n: "node \<in> ?r"
    by (auto split: prod.splits)
  from dfs_dfs_loop_closed(1)[of node graph "{}"] v
  have c: "\<forall>x \<in> ?r. adj graph x \<subseteq> ?r" by simp
  have "x \<in> ?r" if "(node, x) \<in> (edges graph)\<^sup>*" for x
    using that
  proof (induction rule: rtrancl_induct)
    case base
    show ?case by (rule n)
  next
    case (step y z)
    with c show ?case by (auto simp: edges_def)
  qed
  then show "(edges graph)\<^sup>* `` {node} \<subseteq> ?r" by auto
qed

lemma dfs_order_irrelevant:
  assumes "\<forall>k. adj graph1 k = adj graph2 k"
  shows "fst (dfs node graph1 {}) = fst (dfs node graph2 {})"
proof -
  from assms have "edges graph1 = edges graph2" by (simp add: edges_def)
  then show ?thesis by (simp only: dfs_reachable)
qed

section \<open>The graph builder\<close>

lemma map_of_graph_add:
  "map_of (graph_add graph k x) = (map_of graph)(k \<mapsto> set_add (fst (getitem graph k)) x)"
  by (rule ext) (auto simp: graph_add_def getitem_def update_conv' map_add_def split: option.splits)

lemma adj_graph_add:
  "adj (graph_add graph k x) k' = (if k' = k then insert x (adj graph k) else adj graph k')"
  by (auto simp: adj_def getitem_def map_of_graph_add set_add_def split: option.splits)

lemma contains_graph_add: "contains (graph_add graph k x) k' = (k' = k \<or> contains graph k')"
  by (auto simp: contains_def map_of_graph_add)

lemma adj_add_similarity:
  "adj (add_similarity (a, b) graph) k =
     adj graph k \<union> (if k = a \<or> k = b then {a, b} else {})"
  by (auto simp: add_similarity_def adj_graph_add)

lemma contains_add_similarity:
  "contains (add_similarity (a, b) graph) k = (k = a \<or> k = b \<or> contains graph k)"
  by (auto simp: add_similarity_def contains_graph_add)

lemma adj_add_movie:
  "adj (add_movie m graph) k = (if k = m \<and> \<not> contains graph m then {m} else adj graph k)"
  by (auto simp: add_movie_def adj_graph_add adj_not_contains)

lemma contains_add_movie: "contains (add_movie m graph) k = (k = m \<or> contains graph k)"
  by (auto simp: add_movie_def contains_graph_add)

lemma contains_Nil: "\<not> contains [] k"
  by (simp add: contains_def)

lemma adj_Nil: "adj [] k = {}"
  by (simp add: adj_def getitem_def)

lemma graph_inv_empty: "graph_inv []"
  by (simp add: graph_inv_def closed_def adj_Nil contains_Nil)

lemma graph_inv_add_similarity: "graph_inv graph \<Longrightarrow> graph_inv (add_similarity p graph)"
  by (cases p) (auto simp: graph_inv_def closed_def adj_add_similarity contains_add_similarity
      split: if_splits)

lemma graph_inv_add_movie: "graph_inv graph \<Longrightarrow> graph_inv (add_movie m graph)"
  by (auto simp: graph_inv_def closed_def adj_add_movie contains_add_movie split: if_splits)

lemma graph_inv_fold_similarity:
  "graph_inv graph \<Longrightarrow> graph_inv (fold add_similarity ps graph)"
  by (induction ps arbitrary: graph) (auto simp: graph_inv_add_similarity)

lemma graph_inv_fold_movie: "graph_inv graph \<Longrightarrow> graph_inv (fold add_movie ms graph)"
  by (induction ms arbitrary: graph) (auto simp: graph_inv_add_movie)

lemma graph_inv_build_graph: "graph_inv (build_graph movies similarities)"
  by (simp add: build_graph_def graph_inv_fold_movie graph_inv_fold_similarity graph_inv_empty)

lemma closed_build_graph: "closed (build_graph movies similarities)"
  using graph_inv_build_graph by (simp add: graph_inv_def)

lemma contains_fold_movie:
  "contains (fold add_movie ms graph) k = (k \<in> set ms \<or> contains graph k)"
  by (induction ms arbitrary: graph) (auto simp: contains_add_movie)

lemma contains_fold_similarity:
  "contains (fold add_similarity ps graph) k =
     (k \<in> fst ` set ps \<or> k \<in> snd ` set ps \<or> contains graph k)"
  by (induction ps arbitrary: graph) (auto simp: contains_add_similarity)

lemma adj_fold_similarity:
  "adj (fold add_similarity ps graph) k =
     adj graph k \<union> {x. (k, x) \<in> set ps \<or> (x, k) \<in> set ps}
       \<union> (if k \<in> fst ` set ps \<union> snd ` set ps then {k} else {})"
proof (induction ps arbitrary: graph)
  case Nil
  show ?case by simp
next
  case (Cons p ps)
  obtain a b where p: "p = (a, b)" by (cases p)
  show ?case unfolding p by (simp add: Cons adj_add_similarity) (auto simp: image_iff)
qed

lemma adj_fold_movie:
  "adj (fold add_movie ms graph) k =
     (if k \<in> set ms \<and> \<not> contains graph k then {k} else adj graph k)"
  by (induction ms arbitrary: graph) (auto simp: adj_add_movie contains_add_movie adj_not_contains)

lemma contains_build_graph:
  "contains (build_graph movies similarities) k =
     (k \<in> set movies \<or> k \<in> fst ` set similarities \<or> k \<in> snd ` set similarities)"
  by (auto simp: build_graph_def contains_fold_movie contains_fold_similarity contains_Nil)

lemma adj_build_graph:
  "adj (build_graph movies similarities) k =
     (if k \<in> set movies \<union> fst ` set similarities \<union> snd ` set similarities
      then insert k {x. (k, x) \<in> set similarities \<or> (x, k) \<in> set similarities} else {})"
  by (auto simp: build_graph_def adj_fold_movie adj_fold_similarity contains_fold_similarity
      adj_Nil contains_Nil image_iff)

lemma adj_build_graph_pair:
  assumes "(a, b) \<in> set similarities"
  shows "b \<in> adj (build_graph movies similarities) a"
    and "a \<in> adj (build_graph movies similarities) b"
proof -
  from assms have "a \<in> fst ` set similarities" "b \<in> snd ` set similarities" by force+
  then show "b \<in> adj (build_graph movies similarities) a"
    and "a \<in> adj (build_graph movies similarities) b"
    using assms by (simp_all add: adj_build_graph)
qed

lemma similar_in_cluster:
  assumes "(a, b) \<in> set similarities \<or> (b, a) \<in> set similarities" "a \<noteq> b"
  shows "b \<in> cluster a (build_graph movies similarities)"
proof -
  from assms(1) have "b \<in> adj (build_graph movies similarities) a"
    using adj_build_graph_pair by blast
  with adj_subset_dfs assms(2) show ?thesis by (auto simp: cluster_def)
qed

section \<open>The scorer\<close>

lemma sum_ones: "sum_list (map (\<lambda>x. 1::int) xs) = int (length xs)"
  by (induction xs) auto

lemma overlap_nonneg: "0 \<le> overlap friend c"
  by (simp add: overlap_def)

lemma overlap_zero_iff: "overlap friend c = 0 \<longleftrightarrow> set friend \<inter> c = {}"
  by (simp add: overlap_def)

lemma count_similar_eq:
  "count_similar friends c (t, n) = (t + total_overlap friends c, n + overlapping friends c)"
proof (induction friends arbitrary: t n)
  case Nil
  show ?case by (simp add: total_overlap_def overlapping_def)
next
  case (Cons f fs)
  show ?case
  proof (cases "overlap f c > 0")
    case True
    then show ?thesis
      using Cons[of "t + overlap f c" "n + 1"]
      by (simp add: total_overlap_def overlapping_def overlap_def Let_def)
  next
    case False
    with overlap_nonneg[of f c] have z: "overlap f c = 0" by simp
    then show ?thesis
      using Cons[of t n]
      by (simp add: total_overlap_def overlapping_def Let_def) (simp add: overlap_def)
  qed
qed

lemma overlapping_le_total: "overlapping friends c \<le> total_overlap friends c"
proof (induction friends)
  case Nil
  show ?case by (simp add: total_overlap_def overlapping_def)
next
  case (Cons f fs)
  then show ?case using overlap_nonneg[of f c]
    by (auto simp: total_overlap_def overlapping_def)
qed

lemma overlapping_nonneg: "0 \<le> overlapping friends c"
  by (simp add: overlapping_def)

lemma overlapping_zero_iff:
  "overlapping friends c = 0 \<longleftrightarrow> (\<forall>friend \<in> set friends. set friend \<inter> c = {})"
proof -
  have "overlapping friends c = 0 \<longleftrightarrow> (\<forall>friend \<in> set friends. \<not> overlap friend c > 0)"
    by (simp add: overlapping_def filter_empty_conv)
  also have "\<dots> \<longleftrightarrow> (\<forall>friend \<in> set friends. overlap friend c = 0)"
    using overlap_nonneg by (metis less_le not_less)
  finally show ?thesis by (simp add: overlap_zero_iff)
qed

lemma seen_friends_of_zero_iff:
  "seen_friends_of movie friends = 0 \<longleftrightarrow> (\<forall>friend \<in> set friends. movie \<notin> set friend)"
  by (simp add: seen_friends_of_def filter_empty_conv)

lemma mean_overlap_ge_1:
  assumes "overlapping friends c \<noteq> 0"
  shows "1 \<le> mean_overlap friends c"
proof -
  from assms overlapping_nonneg[of friends c] have pos: "0 < overlapping friends c" by simp
  then have "(of_int (overlapping friends c) :: rat) \<le> of_int (total_overlap friends c)"
    using overlapping_le_total[of friends c] by simp
  with pos show ?thesis by (simp add: mean_overlap_def le_divide_eq)
qed

lemma uniqueness_bounds:
  assumes "overlapping friends c \<noteq> 0"
  shows "0 < round_double (1 / round_double (mean_overlap friends c))"
    and "round_double (1 / round_double (mean_overlap friends c)) \<le> 1"
proof -
  let ?m = "round_double (mean_overlap friends c)"
  from round_double_ge_1[OF mean_overlap_ge_1[OF assms]] have m: "1 \<le> ?m" .
  then have q: "0 < 1 / ?m" "1 / ?m \<le> 1" by (simp_all add: divide_le_eq)
  from round_double_pos[OF q(1)] show "0 < round_double (1 / ?m)" .
  from round_double_le_1[OF q] show "round_double (1 / ?m) \<le> 1" .
qed

lemma calculate_score_eq:
  "calculate_score movie friends graph =
     Inr (if seen_friends_of movie friends = 0 then ((0, 0), graph)
          else if overlapping friends (cluster movie graph) = 0
               then ((0, 0), snd (snd (dfs movie graph {})))
               else ((seen_friends_of movie friends,
                      round_double (1 / round_double (mean_overlap friends (cluster movie graph)))),
                     snd (snd (dfs movie graph {}))))"
proof (cases "seen_friends_of movie friends = 0")
  case True
  then show ?thesis by (simp add: calculate_score_def seen_friends_of_def sum_ones)
next
  case False
  obtain r v g' where d: "dfs movie graph {} = (r, v, g')" by (cases "dfs movie graph {}")
  with dfs_self[of movie graph] have rem: "set_remove r movie = Inr (cluster movie graph)"
    by (simp add: set_remove_def cluster_def)
  show ?thesis
  proof (cases "overlapping friends (cluster movie graph) = 0")
    case True
    with False d rem show ?thesis
      by (simp add: calculate_score_def seen_friends_of_def sum_ones count_similar_eq)
  next
    case nz: False
    from round_double_ge_1[OF mean_overlap_ge_1[OF nz]]
    have m: "round_double (mean_overlap friends (cluster movie graph)) \<noteq> 0" by auto
    with False nz d rem show ?thesis
      by (simp add: calculate_score_def seen_friends_of_def sum_ones count_similar_eq
          int_truediv_def float_truediv_def int_to_float_1 mean_overlap_def)
  qed
qed

lemma calculate_score_order_irrelevant:
  assumes "\<forall>k. adj graph1 k = adj graph2 k"
  shows "map_sum id fst (calculate_score movie friends graph1)
       = map_sum id fst (calculate_score movie friends graph2)"
  using dfs_order_irrelevant[OF assms, of movie]
  by (simp add: calculate_score_eq cluster_def del: dfs.simps)

lemma calculate_score_frame:
  assumes "closed graph" "contains graph movie"
  shows "calculate_score movie friends graph =
           Inr ((score_of movie friends graph, novelty_of movie friends graph), graph)"
  using dfs_dfs_loop_frame(1)[OF assms, of "{}"]
  by (simp add: score_of_def novelty_of_def calculate_score_eq)

lemma novelty_of_nonzero_iff:
  "novelty_of movie friends graph \<noteq> 0 \<longleftrightarrow>
     seen_friends_of movie friends \<noteq> 0 \<and> overlapping friends (cluster movie graph) \<noteq> 0"
  using uniqueness_bounds(1)[of friends "cluster movie graph"]
  by (auto simp: novelty_of_def calculate_score_eq)

section \<open>The recommender\<close>

lemma score_all_eq:
  assumes "closed graph" "\<forall>m \<in> set ms. contains graph m"
  shows "score_all ms friends graph recs =
           Inr (recs @ map (\<lambda>m. (m, ratio_of m friends graph))
                          (filter (\<lambda>m. novelty_of m friends graph \<noteq> 0) ms), graph)"
  using assms(2)
proof (induction ms arbitrary: recs)
  case Nil
  show ?case by simp
next
  case (Cons m ms)
  from Cons.prems have c: "contains graph m" and rest: "\<forall>m \<in> set ms. contains graph m" by auto
  show ?case
    by (simp add: calculate_score_frame[OF assms(1) c] Cons.IH[OF rest] float_truediv_def
        ratio_of_def)
qed

lemma max_from_split:
  "\<exists>ys zs. best # xs = ys @ max_from key best xs # zs \<and>
     (\<forall>y \<in> set ys. key y < key (max_from key best xs)) \<and>
     (\<forall>z \<in> set zs. key z \<le> key (max_from key best xs))"
proof (induction xs arbitrary: best)
  case Nil
  have "[best] = [] @ best # []" by simp
  then show ?case by fastforce
next
  case (Cons x xs)
  show ?case
  proof (cases "key x > key best")
    case True
    define r where "r = max_from key x xs"
    from Cons[of x] obtain ys zs where
      s: "x # xs = ys @ r # zs"
      and lt: "\<forall>y \<in> set ys. key y < key r"
      and le: "\<forall>z \<in> set zs. key z \<le> key r" unfolding r_def by blast
    have "key x \<le> key r"
    proof (cases ys)
      case Nil
      with s have "x = r" by auto
      then show ?thesis by simp
    next
      case (Cons y ys')
      with s have "y = x" by simp
      with lt Cons show ?thesis by auto
    qed
    with True have b: "key best < key r" by simp
    have r: "max_from key best (x # xs) = r" using True by (simp add: r_def)
    have "best # x # xs = (best # ys) @ r # zs" using s by simp
    moreover have "\<forall>y \<in> set (best # ys). key y < key r" using lt b by simp
    ultimately show ?thesis unfolding r using le by blast
  next
    case False
    define r where "r = max_from key best xs"
    from Cons[of best] obtain ys zs where
      s: "best # xs = ys @ r # zs"
      and lt: "\<forall>y \<in> set ys. key y < key r"
      and le: "\<forall>z \<in> set zs. key z \<le> key r" unfolding r_def by blast
    have r: "max_from key best (x # xs) = r" using False by (simp add: r_def)
    show ?thesis
    proof (cases ys)
      case Nil
      with s have br: "best = r" and xs: "xs = zs" by auto
      have "best # x # xs = [] @ r # (x # zs)" using br xs by simp
      moreover have "\<forall>z \<in> set (x # zs). key z \<le> key r" using le False br by auto
      ultimately show ?thesis unfolding r by fastforce
    next
      case (Cons y ys')
      with s have y: "y = best" and xs: "xs = ys' @ r # zs" by auto
      from lt Cons y have "key best < key r" by simp
      with False have "key x < key r" by simp
      with lt Cons y have "\<forall>y \<in> set (best # x # ys'). key y < key r" by simp
      moreover have "best # x # xs = (best # x # ys') @ r # zs" using xs by simp
      ultimately show ?thesis unfolding r using le by blast
    qed
  qed
qed

lemma filter_eq_split:
  "filter P xs = ys @ x # zs \<Longrightarrow>
     \<exists>before after. xs = before @ x # after \<and> P x \<and> filter P before = ys \<and> filter P after = zs"
proof (induction xs arbitrary: ys)
  case Nil
  then show ?case by simp
next
  case (Cons h t)
  show ?case
  proof (cases "P h")
    case False
    with Cons.prems have "filter P t = ys @ x # zs" by simp
    from Cons.IH[OF this] obtain b a where
      "t = b @ x # a" "P x" "filter P b = ys" "filter P a = zs" by blast
    with False show ?thesis
      by (intro exI[of _ "h # b", OF exI[of _ a]]) simp
  next
    case True
    show ?thesis
    proof (cases ys)
      case Nil
      with True Cons.prems show ?thesis
        by (intro exI[of _ "[]", OF exI[of _ t]]) simp
    next
      case (Cons y ys')
      with True Cons.prems have "y = h" "filter P t = ys' @ x # zs" by auto
      from Cons.IH[OF this(2)] obtain b a where
        "t = b @ x # a" "P x" "filter P b = ys'" "filter P a = zs" by blast
      with True Cons \<open>y = h\<close> show ?thesis
        by (intro exI[of _ "h # b", OF exI[of _ a]]) simp
    qed
  qed
qed

lemma recommend_movie_candidates:
  "recommend_movie movies similarities friends =
     (let graph = build_graph movies similarities;
          recommendations = map (\<lambda>m. (m, ratio_of m friends graph))
                              (filter (\<lambda>m. novelty_of m friends graph \<noteq> 0) movies)
      in case recommendations of
           [] \<Rightarrow> Inr ''No movie to recommend''
         | r # rest \<Rightarrow> Inr (fst (max_from snd r rest)))"
proof -
  have keys: "\<forall>m \<in> set movies. contains (build_graph movies similarities) m"
    by (simp add: contains_build_graph)
  show ?thesis
    unfolding recommend_movie_def Let_def score_all_eq[OF closed_build_graph keys]
    by (simp add: max_by_def split: list.splits)
qed

lemma recommend_movie_none:
  assumes "\<forall>m \<in> set movies. novelty_of m friends (build_graph movies similarities) = 0"
  shows "recommend_movie movies similarities friends = Inr ''No movie to recommend''"
proof -
  from assms have
    "filter (\<lambda>m. novelty_of m friends (build_graph movies similarities) \<noteq> 0) movies = []"
    by (simp add: filter_empty_conv)
  then show ?thesis by (simp add: recommend_movie_candidates)
qed

lemma recommend_movie_split:
  assumes "\<exists>m \<in> set movies. novelty_of m friends (build_graph movies similarities) \<noteq> 0"
  shows "\<exists>before best after.
           movies = before @ best # after \<and>
           recommend_movie movies similarities friends = Inr best \<and>
           novelty_of best friends (build_graph movies similarities) \<noteq> 0 \<and>
           (\<forall>x \<in> set before. novelty_of x friends (build_graph movies similarities) \<noteq> 0 \<longrightarrow>
              ratio_of x friends (build_graph movies similarities)
                < ratio_of best friends (build_graph movies similarities)) \<and>
           (\<forall>x \<in> set after. novelty_of x friends (build_graph movies similarities) \<noteq> 0 \<longrightarrow>
              ratio_of x friends (build_graph movies similarities)
                \<le> ratio_of best friends (build_graph movies similarities))"
proof -
  define G where "G = build_graph movies similarities"
  define P where "P = (\<lambda>m. novelty_of m friends G \<noteq> 0)"
  define f where "f = (\<lambda>m. (m, ratio_of m friends G))"
  from assms have ne: "map f (filter P movies) \<noteq> []"
    by (auto simp: P_def G_def filter_empty_conv)
  then obtain c cs where ccs: "map f (filter P movies) = c # cs"
    by (cases "map f (filter P movies)") auto
  define r where "r = max_from snd c cs"
  have res: "recommend_movie movies similarities friends = Inr (fst r)"
    using ccs by (simp add: recommend_movie_candidates G_def[symmetric] P_def[symmetric]
        f_def[symmetric] r_def)
  from max_from_split[of c cs snd] obtain ys zs where
    s: "c # cs = ys @ r # zs"
    and lt: "\<forall>y \<in> set ys. snd y < snd r"
    and le: "\<forall>z \<in> set zs. snd z \<le> snd r" unfolding r_def by blast
  from s ccs have "map f (filter P movies) = ys @ r # zs" by simp
  then obtain us m vs where
    fs: "filter P movies = us @ m # vs" and ys: "ys = map f us" and rm: "r = f m"
    and zs: "zs = map f vs"
    by (auto simp: map_eq_append_conv map_eq_Cons_conv)
  from filter_eq_split[OF fs] obtain before after where
    mv: "movies = before @ m # after" and Pm: "P m"
    and b: "filter P before = us" and a: "filter P after = vs" by blast
  have "\<forall>x \<in> set before. P x \<longrightarrow> snd (f x) < snd (f m)"
    using lt ys rm b by auto
  moreover have "\<forall>x \<in> set after. P x \<longrightarrow> snd (f x) \<le> snd (f m)"
    using le zs rm a by auto
  moreover have "fst r = m" using rm by (simp add: f_def)
  ultimately show ?thesis
    using mv Pm res unfolding P_def f_def G_def by auto
qed

lemma recommend_movie_member:
  assumes m: "m \<in> set movies" and sm: "seen m friends"
    and x: "x \<in> cluster m (build_graph movies similarities)" and sx: "seen x friends"
  shows "\<exists>r. recommend_movie movies similarities friends = Inr r \<and> r \<in> set movies"
proof -
  let ?G = "build_graph movies similarities"
  from sm have "seen_friends_of m friends \<noteq> 0"
    by (simp add: seen_friends_of_zero_iff seen_def)
  moreover from sx x have "overlapping friends (cluster m ?G) \<noteq> 0"
    by (auto simp: overlapping_zero_iff seen_def)
  ultimately have "novelty_of m friends ?G \<noteq> 0" by (simp add: novelty_of_nonzero_iff)
  with m have "\<exists>m \<in> set movies. novelty_of m friends ?G \<noteq> 0" by blast
  from recommend_movie_split[OF this] show ?thesis by auto
qed

section \<open>The properties\<close>

subsection \<open>The worked example\<close>

text \<open>
  C1. On the example of the \<^verbatim>\<open>__main__\<close> block (five movies, three similarity pairs,
  six friends) \<open>recommend_movie\<close> returns the string
  \<^verbatim>\<open>Lock, Stock and Two Smoking Barrels\<close>.
\<close>

theorem recommend_movie_example:
  "recommend_movie example_movies example_similarities example_friends
     = Inr ''Lock, Stock and Two Smoking Barrels''"
  by code_simp

subsection \<open>A fully connected catalog\<close>

text \<open>
  C2, as the claim states it, fails: with the catalog A, B, the pair (A, B) and one
  friend who has seen A only, all movies are pairwise similar and the friend's
  history meets the cluster of B, yet neither movie is a candidate (nobody has seen B,
  and nobody has seen a movie similar to A), and the answer is the sentinel.
\<close>

theorem recommend_movie_fully_connected_counterexample:
  "pairwise_similar [''A'', ''B''] [(''A'', ''B'')] \<and>
   peer_overlap [''A'', ''B''] [[''A'']] (build_graph [''A'', ''B''] [(''A'', ''B'')]) \<and>
   recommend_movie [''A'', ''B''] [(''A'', ''B'')] [[''A'']] = Inr ''No movie to recommend'' \<and>
   ''No movie to recommend'' \<notin> set [''A'', ''B'']"
  by code_simp

text \<open>
  C2, amended. When all movies of the catalog are pairwise similar and two distinct
  movies of the catalog have each been seen by some friend, \<open>recommend_movie\<close> raises
  nothing and returns a movie of the catalog, which is not the sentinel string unless
  that string is itself a movie of the catalog.
\<close>

theorem recommend_movie_fully_connected:
  assumes "pairwise_similar movies similarities"
    and "m \<in> set movies" "m' \<in> set movies" "m \<noteq> m'"
    and "seen m friends" "seen m' friends"
  shows "\<exists>r. recommend_movie movies similarities friends = Inr r \<and> r \<in> set movies \<and>
           (''No movie to recommend'' \<notin> set movies \<longrightarrow> r \<noteq> ''No movie to recommend'')"
proof -
  from assms(1-4) have "(m, m') \<in> set similarities \<or> (m', m) \<in> set similarities"
    by (auto simp: pairwise_similar_def)
  from similar_in_cluster[OF this assms(4)]
  have "m' \<in> cluster m (build_graph movies similarities)" .
  from recommend_movie_member[OF assms(2,5) this assms(6)] show ?thesis by auto
qed

theorem recommend_movie_fully_connected_witness:
  "pairwise_similar [''A'', ''B''] [(''A'', ''B'')] \<and>
   seen ''A'' [[''A''], [''B'']] \<and> seen ''B'' [[''A''], [''B'']] \<and>
   (\<exists>r. recommend_movie [''A'', ''B''] [(''A'', ''B'')] [[''A''], [''B'']] = Inr r \<and>
        r \<in> set [''A'', ''B''] \<and> r \<noteq> ''No movie to recommend'')"
proof -
  have h4: "''No movie to recommend'' \<notin> set [''A'', ''B'']" by simp
  have h1: "pairwise_similar [''A'', ''B''] [(''A'', ''B'')]" by code_simp
  have h2: "''A'' \<in> set [''A'', ''B'']" "''B'' \<in> set [''A'', ''B'']" "''A'' \<noteq> ''B''"
    by simp_all
  have h3: "seen ''A'' [[''A''], [''B'']]" "seen ''B'' [[''A''], [''B'']]" by code_simp+
  from recommend_movie_fully_connected[OF h1 h2 h3] h4 have
    "\<exists>r. recommend_movie [''A'', ''B''] [(''A'', ''B'')] [[''A''], [''B'']] = Inr r \<and>
        r \<in> set [''A'', ''B''] \<and> r \<noteq> ''No movie to recommend''"
    by (elim exE conjE impE) (assumption, intro exI conjI)
  with h1 h3 show ?thesis by (intro conjI)
qed

subsection \<open>Friends who have seen everything\<close>

text \<open>
  C3, as the claim states it, fails: with the catalog A alone, no similarity pair and
  one friend who has seen A, the friends cover the catalog, yet A has no similar
  movie, its uniqueness is 0, and the answer is the sentinel.
\<close>

theorem recommend_movie_all_seen_counterexample:
  "[''A''] \<noteq> [] \<and> covers [[''A'']] [''A''] \<and>
   recommend_movie [''A''] [] [[''A'']] = Inr ''No movie to recommend'' \<and>
   ''No movie to recommend'' \<notin> set [''A'']"
  by code_simp

text \<open>
  C3, amended. When the friends' histories cover every movie of the catalog and the
  similarity list has a pair of two distinct movies of the catalog, \<open>recommend_movie\<close>
  raises nothing and returns a movie of the catalog, which is not the sentinel string
  unless that string is itself a movie of the catalog.
\<close>

theorem recommend_movie_all_seen:
  assumes "covers friends movies"
    and "(a, b) \<in> set similarities" "a \<in> set movies" "b \<in> set movies" "a \<noteq> b"
  shows "\<exists>r. recommend_movie movies similarities friends = Inr r \<and> r \<in> set movies \<and>
           (''No movie to recommend'' \<notin> set movies \<longrightarrow> r \<noteq> ''No movie to recommend'')"
proof -
  from assms(1,3,4) have s: "seen a friends" "seen b friends" by (auto simp: covers_def)
  from assms(2) have "(a, b) \<in> set similarities \<or> (b, a) \<in> set similarities" ..
  from similar_in_cluster[OF this assms(5)]
  have "b \<in> cluster a (build_graph movies similarities)" .
  from recommend_movie_member[OF assms(3) s(1) this s(2)] show ?thesis by auto
qed

theorem recommend_movie_all_seen_witness:
  "covers [[''A'', ''B'']] [''A'', ''B''] \<and>
   (\<exists>r. recommend_movie [''A'', ''B''] [(''A'', ''B'')] [[''A'', ''B'']] = Inr r \<and>
        r \<in> set [''A'', ''B''] \<and> r \<noteq> ''No movie to recommend'')"
proof -
  have h3: "''No movie to recommend'' \<notin> set [''A'', ''B'']" by simp
  have h1: "covers [[''A'', ''B'']] [''A'', ''B'']" by code_simp
  have h2: "(''A'', ''B'') \<in> set [(''A'', ''B'')]" "''A'' \<in> set [''A'', ''B'']"
    "''B'' \<in> set [''A'', ''B'']" "''A'' \<noteq> ''B''" by simp_all
  from recommend_movie_all_seen[OF h1 h2] h3 have
    "\<exists>r. recommend_movie [''A'', ''B''] [(''A'', ''B'')] [[''A'', ''B'']] = Inr r \<and>
        r \<in> set [''A'', ''B''] \<and> r \<noteq> ''No movie to recommend''"
    by (elim exE conjE impE) (assumption, intro exI conjI)
  with h1 show ?thesis by (intro conjI)
qed

subsection \<open>The maximum and its tie-break\<close>

text \<open>
  C4. The candidates are the movies of the catalog whose uniqueness is not 0. When
  there is one, \<open>recommend_movie\<close> returns the movie at some position \<open>i\<close> of the
  catalog that is a candidate, whose quotient score / uniqueness is at least that of
  every candidate, and strictly greater than that of every candidate at an earlier
  position: the first of the candidates that attain the maximum. The quotient is the
  float the program computes, so two candidates tie when their floats are equal: in
  the second example below the exact quotients are equal, the floats are not, and
  the later movie is returned.
\<close>

theorem recommend_movie_first_maximum:
  assumes "\<exists>m \<in> set movies. novelty_of m friends (build_graph movies similarities) \<noteq> 0"
  shows "\<exists>i < length movies.
           recommend_movie movies similarities friends = Inr (movies ! i) \<and>
           novelty_of (movies ! i) friends (build_graph movies similarities) \<noteq> 0 \<and>
           (\<forall>j < length movies.
              novelty_of (movies ! j) friends (build_graph movies similarities) \<noteq> 0 \<longrightarrow>
              ratio_of (movies ! j) friends (build_graph movies similarities)
                \<le> ratio_of (movies ! i) friends (build_graph movies similarities)) \<and>
           (\<forall>j < i.
              novelty_of (movies ! j) friends (build_graph movies similarities) \<noteq> 0 \<longrightarrow>
              ratio_of (movies ! j) friends (build_graph movies similarities)
                < ratio_of (movies ! i) friends (build_graph movies similarities))"
proof -
  let ?G = "build_graph movies similarities"
  from recommend_movie_split[OF assms] obtain before best after where
    mv: "movies = before @ best # after"
    and res: "recommend_movie movies similarities friends = Inr best"
    and nz: "novelty_of best friends ?G \<noteq> 0"
    and lt: "\<forall>x \<in> set before. novelty_of x friends ?G \<noteq> 0 \<longrightarrow>
               ratio_of x friends ?G < ratio_of best friends ?G"
    and le: "\<forall>x \<in> set after. novelty_of x friends ?G \<noteq> 0 \<longrightarrow>
               ratio_of x friends ?G \<le> ratio_of best friends ?G" by blast
  let ?i = "length before"
  have i: "?i < length movies" and bi: "movies ! ?i = best" by (simp_all add: mv)
  have before: "movies ! j \<in> set before" if "j < ?i" for j
    using that by (simp add: mv nth_append)
  have after: "movies ! j \<in> set after" if "?i < j" "j < length movies" for j
  proof -
    from that have "movies ! j = after ! (j - Suc ?i)" "j - Suc ?i < length after"
      by (auto simp: mv nth_append nth_Cons')
    then show ?thesis by simp
  qed
  have all: "ratio_of (movies ! j) friends ?G \<le> ratio_of (movies ! ?i) friends ?G"
    if "j < length movies" "novelty_of (movies ! j) friends ?G \<noteq> 0" for j
  proof -
    consider "j < ?i" | "j = ?i" | "?i < j" by linarith
    then show ?thesis
    proof cases
      case 1
      with lt before that(2) bi show ?thesis by fastforce
    next
      case 2
      then show ?thesis by simp
    next
      case 3
      with le after that bi show ?thesis by fastforce
    qed
  qed
  have first: "ratio_of (movies ! j) friends ?G < ratio_of (movies ! ?i) friends ?G"
    if "j < ?i" "novelty_of (movies ! j) friends ?G \<noteq> 0" for j
    using lt before[OF that(1)] that(2) bi by fastforce
  from i res nz all first show ?thesis unfolding bi[symmetric]
    by (intro exI[of _ ?i]) blast
qed

theorem recommend_movie_first_maximum_witness:
  "ratio_of ''a'' [[''a'', ''b'']] (build_graph [''a'', ''b''] [(''a'', ''b'')])
     = ratio_of ''b'' [[''a'', ''b'']] (build_graph [''a'', ''b''] [(''a'', ''b'')]) \<and>
   recommend_movie [''a'', ''b''] [(''a'', ''b'')] [[''a'', ''b'']] = Inr ''a'' \<and>
   ratio_of ''A'' rounding_friends (build_graph rounding_movies rounding_similarities) = 9 \<and>
   ratio_of ''B'' rounding_friends (build_graph rounding_movies rounding_similarities)
     = 5066549580791809 / 562949953421312 \<and>
   recommend_movie rounding_movies rounding_similarities rounding_friends = Inr ''B''"
proof -
  let ?M = "[''a'', ''b'']" and ?S = "[(''a'', ''b'')]" and ?F = "[[''a'', ''b'']]"
  have n: "novelty_of ''a'' ?F (build_graph ?M ?S) \<noteq> 0" by code_simp
  have t: "ratio_of ''a'' ?F (build_graph ?M ?S) = ratio_of ''b'' ?F (build_graph ?M ?S)"
    by code_simp
  from n have h: "\<exists>m \<in> set ?M. novelty_of m ?F (build_graph ?M ?S) \<noteq> 0" by simp
  from recommend_movie_first_maximum[OF h] obtain i where
    i: "i < length ?M" and res: "recommend_movie ?M ?S ?F = Inr (?M ! i)"
    and first: "\<forall>j < i. novelty_of (?M ! j) ?F (build_graph ?M ?S) \<noteq> 0 \<longrightarrow>
        ratio_of (?M ! j) ?F (build_graph ?M ?S) < ratio_of (?M ! i) ?F (build_graph ?M ?S)"
    by blast
  have "i = 0"
  proof (rule ccontr)
    assume "i \<noteq> 0"
    with i have i1: "i = 1" by simp
    with first n have
      "ratio_of ''a'' ?F (build_graph ?M ?S) < ratio_of ''b'' ?F (build_graph ?M ?S)" by simp
    with t show False by simp
  qed
  with res have tie: "recommend_movie ?M ?S ?F = Inr ''a''" by simp
  let ?G = "build_graph rounding_movies rounding_similarities"
  have nA: "novelty_of ''A'' rounding_friends ?G \<noteq> 0"
    and nB: "novelty_of ''B'' rounding_friends ?G \<noteq> 0" by code_simp+
  have rA: "ratio_of ''A'' rounding_friends ?G = 9" by code_simp
  have rB: "ratio_of ''B'' rounding_friends ?G = 5066549580791809 / 562949953421312"
    by code_simp
  have M: "rounding_movies = [''A'', ''B'']" by (rule rounding_movies_def)
  from nA have h': "\<exists>m \<in> set rounding_movies. novelty_of m rounding_friends ?G \<noteq> 0"
    by (simp add: M)
  from recommend_movie_first_maximum[OF h'] obtain k where
    k: "k < length rounding_movies"
    and res': "recommend_movie rounding_movies rounding_similarities rounding_friends
        = Inr (rounding_movies ! k)"
    and all: "\<forall>j < length rounding_movies.
        novelty_of (rounding_movies ! j) rounding_friends ?G \<noteq> 0 \<longrightarrow>
        ratio_of (rounding_movies ! j) rounding_friends ?G
          \<le> ratio_of (rounding_movies ! k) rounding_friends ?G"
    by blast
  have "k = 1"
  proof (rule ccontr)
    assume "k \<noteq> 1"
    with k have k0: "k = 0" by (simp add: M)
    from all[rule_format, of 1] nB have
      "ratio_of ''B'' rounding_friends ?G \<le> ratio_of ''A'' rounding_friends ?G"
      by (simp add: M k0)
    then show False by (simp add: rA rB)
  qed
  with res' have rnd: "recommend_movie rounding_movies rounding_similarities rounding_friends
      = Inr ''B''" by (simp add: M)
  from t tie rA rB rnd show ?thesis by (intro conjI)
qed

subsection \<open>The scorer\<close>

text \<open>
  C5. For every movie, list of friends and graph, \<open>calculate_score\<close> raises nothing. It
  returns (0, 0) when no friend has seen the movie, and when no friend has seen a
  movie of its similarity cluster (what the traversal returns, minus the movie
  itself); otherwise it returns the number of friends who have seen the movie and 1
  divided by the mean overlap, both divisions being those of floats: the mean is
  rounded to a double, and so is its reciprocal.
\<close>

theorem calculate_score_cases:
  "\<exists>graph'. calculate_score movie friends graph =
     Inr (if (\<forall>friend \<in> set friends. movie \<notin> set friend) \<or>
             (\<forall>friend \<in> set friends. set friend \<inter> cluster movie graph = {})
          then (0, 0)
          else (seen_friends_of movie friends,
                round_double (1 / round_double (mean_overlap friends (cluster movie graph)))),
          graph')"
  by (simp add: calculate_score_eq seen_friends_of_zero_iff[symmetric]
      overlapping_zero_iff[symmetric])

theorem calculate_score_cases_witness:
  "(\<exists>graph'. calculate_score ''a'' [[''a'', ''b'', ''c''], [''b''], [''d'']]
       [(''a'', [''a'', ''b'']), (''b'', [''b'', ''c''])] = Inr ((1, 6004799503160661 / 9007199254740992), graph')) \<and>
   (\<exists>graph'. calculate_score ''c'' [[''a'', ''b'', ''c''], [''b''], [''d'']]
       [(''a'', [''a'', ''b'']), (''b'', [''b'', ''c''])] = Inr ((0, 0), graph')) \<and>
   (\<exists>graph'. calculate_score ''b'' [[''a'', ''b'', ''c''], [''b''], [''d'']]
       [(''a'', [''a'', ''b'']), (''b'', [''b'', ''c''])] = Inr ((2, 1), graph')) \<and>
   (\<exists>graph'. calculate_score ''e'' [[''a'', ''b'', ''c''], [''b''], [''d'']]
       [(''a'', [''a'', ''b'']), (''b'', [''b'', ''c''])] = Inr ((0, 0), graph'))"
proof -
  let ?F = "[[''a'', ''b'', ''c''], [''b''], [''d'']]"
  let ?G = "[(''a'', [''a'', ''b'']), (''b'', [''b'', ''c''])]"
  let ?rhs = "\<lambda>movie. if (\<forall>friend \<in> set ?F. movie \<notin> set friend) \<or>
             (\<forall>friend \<in> set ?F. set friend \<inter> cluster movie ?G = {})
          then (0, 0)
          else (seen_friends_of movie ?F,
                round_double (1 / round_double (mean_overlap ?F (cluster movie ?G))))"
  have a: "?rhs ''a'' = (1, 6004799503160661 / 9007199254740992)" by code_simp
  have c: "?rhs ''c'' = (0, 0)" by code_simp
  have b: "?rhs ''b'' = (2, 1)" by code_simp
  have e: "?rhs ''e'' = (0, 0)" by code_simp
  show ?thesis
    using calculate_score_cases[of "''a''" ?F ?G] calculate_score_cases[of "''c''" ?F ?G]
      calculate_score_cases[of "''b''" ?F ?G] calculate_score_cases[of "''e''" ?F ?G]
    unfolding a b c e by (intro conjI)
qed

subsection \<open>The traversal\<close>

text \<open>
  C6. For every pair (a, b) of the similarity list, in the graph that \<open>build_graph\<close>
  returns the traversal from \<open>a\<close> with nothing visited contains \<open>b\<close>, and the traversal
  from \<open>b\<close> contains \<open>a\<close>.
\<close>

theorem dfs_similarity_symmetric:
  assumes "(a, b) \<in> set similarities"
  shows "b \<in> fst (dfs a (build_graph movies similarities) {}) \<and>
         a \<in> fst (dfs b (build_graph movies similarities) {})"
proof -
  let ?G = "build_graph movies similarities"
  from assms have "b \<in> adj ?G a" "a \<in> adj ?G b"
    by (rule adj_build_graph_pair)+
  with adj_subset_dfs show ?thesis by blast
qed

theorem dfs_similarity_symmetric_witness:
  "(''a'', ''b'') \<in> set [(''a'', ''b''), (''b'', ''c'')] \<and>
   ''b'' \<in> fst (dfs ''a'' (build_graph [''c''] [(''a'', ''b''), (''b'', ''c'')]) {}) \<and>
   ''a'' \<in> fst (dfs ''b'' (build_graph [''c''] [(''a'', ''b''), (''b'', ''c'')]) {})"
proof -
  have h: "(''a'', ''b'') \<in> set [(''a'', ''b''), (''b'', ''c'')]" by simp
  from dfs_similarity_symmetric[OF h, of "[''c'']"] h show ?thesis by simp
qed

text \<open>
  C7. The traversal terminates on every graph, cycles included: every call
  \<open>dfs node graph visited\<close> is in the domain on which the recursion is well-founded.
  The visited set never shrinks, and a call on a node not yet visited makes it
  strictly larger, which is what bounds the recursion.
\<close>

theorem dfs_terminates:
  "dfs_dfs_loop_dom (Inl (node, graph, visited)) \<and>
   visited \<subseteq> fst (snd (dfs node graph visited)) \<and>
   (node \<notin> visited \<longrightarrow> visited \<subset> fst (snd (dfs node graph visited)))"
  using dfs_dfs_loop_dom_all(1)[of node graph visited]
    dfs_dfs_loop_visited(1)[where node=node and graph=graph and visited=visited]
  by (auto split: prod.splits)

theorem dfs_terminates_witness:
  "dfs_dfs_loop_dom
     (Inl (''a'', build_graph [] [(''a'', ''b''), (''b'', ''c''), (''c'', ''a'')], {})) \<and>
   ''a'' \<notin> {} \<and>
   {} \<subset> fst (snd (dfs ''a'' (build_graph [] [(''a'', ''b''), (''b'', ''c''), (''c'', ''a'')]) {})) \<and>
   fst (dfs ''a'' (build_graph [] [(''a'', ''b''), (''b'', ''c''), (''c'', ''a'')]) {})
     = {''a'', ''b'', ''c''}"
proof -
  have e: "fst (dfs ''a'' (build_graph [] [(''a'', ''b''), (''b'', ''c''), (''c'', ''a'')]) {})
     = {''a'', ''b'', ''c''}" by code_simp
  have h: "''a'' \<notin> ({} :: movie set)" by simp
  note t = dfs_terminates[of "''a''"
      "build_graph [] [(''a'', ''b''), (''b'', ''c''), (''c'', ''a'')]" "{}"]
  from t have d: "dfs_dfs_loop_dom
      (Inl (''a'', build_graph [] [(''a'', ''b''), (''b'', ''c''), (''c'', ''a'')], {}))"
    by (rule conjunct1)
  from t have "''a'' \<notin> {} \<longrightarrow>
      {} \<subset> fst (snd (dfs ''a'' (build_graph [] [(''a'', ''b''), (''b'', ''c''), (''c'', ''a'')]) {}))"
    by (rule conjunct2[THEN conjunct2])
  from this h have g:
    "{} \<subset> fst (snd (dfs ''a'' (build_graph [] [(''a'', ''b''), (''b'', ''c''), (''c'', ''a'')]) {}))"
    by (rule mp)
  from d h g e show ?thesis by (intro conjI)
qed

subsection \<open>The graph\<close>

text \<open>
  C8. In the graph that \<open>build_graph\<close> returns, every movie of the catalog is a key,
  the adjacency set of every key contains the key, and for distinct \<open>a\<close> and \<open>b\<close>,
  \<open>b\<close> is in the adjacency set of \<open>a\<close> exactly when \<open>a\<close> is in that of \<open>b\<close>.
\<close>

theorem build_graph_invariant:
  "(\<forall>m \<in> set movies. contains (build_graph movies similarities) m) \<and>
   (\<forall>k. contains (build_graph movies similarities) k \<longrightarrow>
        k \<in> adj (build_graph movies similarities) k) \<and>
   (\<forall>a b. a \<noteq> b \<longrightarrow>
      (b \<in> adj (build_graph movies similarities) a) =
      (a \<in> adj (build_graph movies similarities) b))"
proof -
  let ?G = "build_graph movies similarities"
  have "\<forall>m \<in> set movies. contains ?G m" by (simp add: contains_build_graph)
  moreover have "\<forall>k. contains ?G k \<longrightarrow> k \<in> adj ?G k"
    using graph_inv_build_graph[of movies similarities] by (simp add: graph_inv_def)
  moreover have "\<forall>a b. a \<noteq> b \<longrightarrow> (b \<in> adj ?G a) = (a \<in> adj ?G b)"
    using graph_inv_build_graph[of movies similarities] unfolding graph_inv_def by blast
  ultimately show ?thesis by blast
qed

theorem build_graph_invariant_witness:
  "contains (build_graph [''c''] [(''a'', ''b'')]) ''c'' \<and>
   ''c'' \<in> adj (build_graph [''c''] [(''a'', ''b'')]) ''c'' \<and>
   ''a'' \<noteq> ''b'' \<and>
   (''b'' \<in> adj (build_graph [''c''] [(''a'', ''b'')]) ''a'') =
   (''a'' \<in> adj (build_graph [''c''] [(''a'', ''b'')]) ''b'') \<and>
   build_graph [''c''] [(''a'', ''b'')]
     = [(''a'', [''b'', ''a'']), (''b'', [''a'', ''b'']), (''c'', [''c''])]"
proof -
  have e: "build_graph [''c''] [(''a'', ''b'')]
     = [(''a'', [''b'', ''a'']), (''b'', [''a'', ''b'']), (''c'', [''c''])]" by code_simp
  have h: "''c'' \<in> set [''c'']" "''a'' \<noteq> ''b''" by simp_all
  note inv = build_graph_invariant[of "[''c'']" "[(''a'', ''b'')]"]
  from inv have "\<forall>m \<in> set [''c'']. contains (build_graph [''c''] [(''a'', ''b'')]) m"
    by (rule conjunct1)
  from this h(1) have c: "contains (build_graph [''c''] [(''a'', ''b'')]) ''c''" by (rule bspec)
  from inv have "\<forall>k. contains (build_graph [''c''] [(''a'', ''b'')]) k \<longrightarrow>
      k \<in> adj (build_graph [''c''] [(''a'', ''b'')]) k"
    by (rule conjunct2[THEN conjunct1])
  from this[rule_format, OF c] have r: "''c'' \<in> adj (build_graph [''c''] [(''a'', ''b'')]) ''c''" .
  from inv have "\<forall>a b. a \<noteq> b \<longrightarrow>
      (b \<in> adj (build_graph [''c''] [(''a'', ''b'')]) a) =
      (a \<in> adj (build_graph [''c''] [(''a'', ''b'')]) b)"
    by (rule conjunct2[THEN conjunct2])
  from this[rule_format, OF h(2)] have
    s: "(''b'' \<in> adj (build_graph [''c''] [(''a'', ''b'')]) ''a'') =
        (''a'' \<in> adj (build_graph [''c''] [(''a'', ''b'')]) ''b'')" .
  from c r h(2) s e show ?thesis by (intro conjI)
qed

text \<open>
  C9. During \<open>recommend_movie\<close> the graph stays as \<open>build_graph\<close> returned it: every
  neighbour in it is one of its keys, so a traversal from any of its keys reads only
  keys and leaves it unchanged, whatever has been visited;
  \<open>calculate_score\<close> on any movie of the catalog leaves it unchanged; and so does the
  whole loop that scores the catalog.
\<close>

theorem graph_read_only:
  "(\<forall>a b. b \<in> adj (build_graph movies similarities) a \<longrightarrow>
      contains (build_graph movies similarities) b) \<and>
   (\<forall>node visited. contains (build_graph movies similarities) node \<longrightarrow>
      snd (snd (dfs node (build_graph movies similarities) visited))
        = build_graph movies similarities) \<and>
   (\<forall>m \<in> set movies. \<exists>r.
      calculate_score m friends (build_graph movies similarities)
        = Inr (r, build_graph movies similarities)) \<and>
   (\<exists>recommendations.
      score_all movies friends (build_graph movies similarities) []
        = Inr (recommendations, build_graph movies similarities))"
proof -
  let ?G = "build_graph movies similarities"
  have keys: "\<forall>m \<in> set movies. contains ?G m" by (simp add: contains_build_graph)
  have "\<forall>a b. b \<in> adj ?G a \<longrightarrow> contains ?G b"
    using closed_build_graph[of movies similarities] by (simp add: closed_def)
  moreover
  have "\<forall>node visited. contains ?G node \<longrightarrow> snd (snd (dfs node ?G visited)) = ?G"
    using dfs_dfs_loop_frame(1)[OF closed_build_graph] by blast
  moreover have "\<forall>m \<in> set movies. \<exists>r. calculate_score m friends ?G = Inr (r, ?G)"
    using calculate_score_frame[OF closed_build_graph] keys by blast
  moreover have "\<exists>recommendations. score_all movies friends ?G [] = Inr (recommendations, ?G)"
    using score_all_eq[OF closed_build_graph keys] by blast
  ultimately show ?thesis by blast
qed

theorem graph_read_only_witness:
  "contains (build_graph example_movies example_similarities) ''Snatch'' \<and>
   snd (snd (dfs ''Snatch'' (build_graph example_movies example_similarities) {}))
     = build_graph example_movies example_similarities \<and>
   (\<exists>r. calculate_score ''Snatch'' example_friends
           (build_graph example_movies example_similarities)
         = Inr (r, build_graph example_movies example_similarities))"
proof -
  have c: "contains (build_graph example_movies example_similarities) ''Snatch''" by code_simp
  have m: "''Snatch'' \<in> set example_movies" by (simp add: example_movies_def)
  note r = graph_read_only[of example_movies example_similarities example_friends]
  from r have "\<forall>node visited.
      contains (build_graph example_movies example_similarities) node \<longrightarrow>
      snd (snd (dfs node (build_graph example_movies example_similarities) visited))
        = build_graph example_movies example_similarities"
    by (rule conjunct2[THEN conjunct1])
  from this[rule_format, OF c] have d:
    "snd (snd (dfs ''Snatch'' (build_graph example_movies example_similarities) {}))
       = build_graph example_movies example_similarities" .
  from r have "\<forall>m \<in> set example_movies. \<exists>r.
      calculate_score m example_friends (build_graph example_movies example_similarities)
        = Inr (r, build_graph example_movies example_similarities)"
    by (rule conjunct2[THEN conjunct2, THEN conjunct1])
  from this m have s: "\<exists>r.
      calculate_score ''Snatch'' example_friends (build_graph example_movies example_similarities)
        = Inr (r, build_graph example_movies example_similarities)"
    by (rule bspec)
  from c d s show ?thesis by (intro conjI)
qed

subsection \<open>Bounds on the score\<close>

text \<open>
  C10. Whenever \<open>calculate_score\<close> returns a uniqueness other than 0, the score is at
  least 1 and the uniqueness, a float, is greater than 0 and at most 1.
\<close>

theorem calculate_score_bounds:
  assumes "calculate_score movie friends graph = Inr ((score, novelty), graph')"
    and "novelty \<noteq> 0"
  shows "1 \<le> score \<and> 0 < novelty \<and> novelty \<le> 1"
proof -
  let ?c = "cluster movie graph"
  from assms have s: "seen_friends_of movie friends \<noteq> 0" and o: "overlapping friends ?c \<noteq> 0"
    and sc: "score = seen_friends_of movie friends"
    and nv: "novelty = round_double (1 / round_double (mean_overlap friends ?c))"
    by (auto simp: calculate_score_eq split: if_splits)
  from s have "1 \<le> seen_friends_of movie friends"
    unfolding seen_friends_of_def by linarith
  with sc nv uniqueness_bounds[OF o] show ?thesis by simp
qed

theorem calculate_score_bounds_witness:
  "calculate_score ''a'' [[''a'', ''b'', ''c''], [''b''], [''d'']]
       [(''a'', [''a'', ''b'']), (''b'', [''b'', ''c''])]
     = Inr ((1, 6004799503160661 / 9007199254740992), [(''a'', [''a'', ''b'']), (''b'', [''b'', ''c'']), (''c'', [])]) \<and>
   (6004799503160661 / 9007199254740992 :: rat) \<noteq> 0 \<and> (1::int) \<le> 1 \<and> (0::rat) < 6004799503160661 / 9007199254740992 \<and> (6004799503160661 / 9007199254740992 :: rat) \<le> 1"
proof -
  have h: "calculate_score ''a'' [[''a'', ''b'', ''c''], [''b''], [''d'']]
       [(''a'', [''a'', ''b'']), (''b'', [''b'', ''c''])]
     = Inr ((1, 6004799503160661 / 9007199254740992), [(''a'', [''a'', ''b'']), (''b'', [''b'', ''c'']), (''c'', [])])"
    by code_simp
  have nz: "(6004799503160661 / 9007199254740992 :: rat) \<noteq> 0" by simp
  from calculate_score_bounds[OF h nz] have
    "(1::int) \<le> 1" "(0::rat) < 6004799503160661 / 9007199254740992" "(6004799503160661 / 9007199254740992 :: rat) \<le> 1" by (rule conjunct1, rule conjunct2[THEN conjunct1], rule conjunct2[THEN conjunct2])
  with h nz show ?thesis by (intro conjI)
qed

end
